theory Spec2Isabelle
  imports Complex_Main "HOL-Library.Word"
begin

section \<open>Numbers\<close>

text \<open>
  Go's \<open>int\<close> is a 64-bit two's-complement integer: \<open>+\<close> and \<open>-\<close> wrap, comparisons
  read the signed value (\<open>sint\<close>).

  A \<open>float64\<close> is modelled by its value: a real number, one of the two infinities, or
  NaN. The operations follow IEEE 754 on the special values (an infinity or NaN in, the
  prescribed special value out; the square root and the logarithm of a negative number
  are NaN; the logarithm of zero is minus infinity; every comparison with NaN is false).
  On finite values they compute the exact real result: rounding, overflow to infinity
  and the sign of zero are not represented.
\<close>

type_synonym int64 = "64 word"

datatype float64 = NInf | Fin real | PInf | NaN

fun f_add :: "float64 \<Rightarrow> float64 \<Rightarrow> float64" where
  "f_add NaN _ = NaN"
| "f_add _ NaN = NaN"
| "f_add PInf NInf = NaN"
| "f_add NInf PInf = NaN"
| "f_add PInf _ = PInf"
| "f_add _ PInf = PInf"
| "f_add NInf _ = NInf"
| "f_add _ NInf = NInf"
| "f_add (Fin a) (Fin b) = Fin (a + b)"

fun f_mul :: "float64 \<Rightarrow> float64 \<Rightarrow> float64" where
  "f_mul NaN _ = NaN"
| "f_mul _ NaN = NaN"
| "f_mul (Fin a) (Fin b) = Fin (a * b)"
| "f_mul (Fin a) PInf = (if a = 0 then NaN else if 0 < a then PInf else NInf)"
| "f_mul (Fin a) NInf = (if a = 0 then NaN else if 0 < a then NInf else PInf)"
| "f_mul PInf (Fin b) = (if b = 0 then NaN else if 0 < b then PInf else NInf)"
| "f_mul NInf (Fin b) = (if b = 0 then NaN else if 0 < b then NInf else PInf)"
| "f_mul PInf PInf = PInf"
| "f_mul NInf NInf = PInf"
| "f_mul PInf NInf = NInf"
| "f_mul NInf PInf = NInf"

fun f_div :: "float64 \<Rightarrow> float64 \<Rightarrow> float64" where
  "f_div NaN _ = NaN"
| "f_div _ NaN = NaN"
| "f_div (Fin a) (Fin b) =
     (if b = 0 then (if a = 0 then NaN else if 0 < a then PInf else NInf)
      else Fin (a / b))"
| "f_div (Fin a) PInf = Fin 0"
| "f_div (Fin a) NInf = Fin 0"
| "f_div PInf (Fin b) = (if 0 \<le> b then PInf else NInf)"
| "f_div NInf (Fin b) = (if 0 \<le> b then NInf else PInf)"
| "f_div PInf PInf = NaN"
| "f_div NInf NInf = NaN"
| "f_div PInf NInf = NaN"
| "f_div NInf PInf = NaN"

text \<open>\<open>math.Sqrt\<close> and \<open>math.Log\<close>.\<close>

fun f_sqrt :: "float64 \<Rightarrow> float64" where
  "f_sqrt NaN = NaN"
| "f_sqrt PInf = PInf"
| "f_sqrt NInf = NaN"
| "f_sqrt (Fin a) = (if a < 0 then NaN else Fin (sqrt a))"

fun f_log :: "float64 \<Rightarrow> float64" where
  "f_log NaN = NaN"
| "f_log PInf = PInf"
| "f_log NInf = NaN"
| "f_log (Fin a) = (if a < 0 then NaN else if a = 0 then NInf else Fin (ln a))"

text \<open>The comparison \<open>x > y\<close> of two floats.\<close>

fun f_gt :: "float64 \<Rightarrow> float64 \<Rightarrow> bool" where
  "f_gt NaN _ = False"
| "f_gt _ NaN = False"
| "f_gt (Fin a) (Fin b) = (b < a)"
| "f_gt PInf PInf = False"
| "f_gt PInf _ = True"
| "f_gt NInf _ = False"
| "f_gt (Fin a) PInf = False"
| "f_gt (Fin a) NInf = True"

text \<open>The conversion \<open>float64(n)\<close> of an \<open>int\<close>.\<close>

definition float64_of_int :: "int64 \<Rightarrow> float64" where
  "float64_of_int n = Fin (real_of_int (sint n))"

section \<open>The search tree\<close>

text \<open>
  Nodes are heap objects that point to each other (\<open>parent *Node\<close>,
  \<open>children []*Node\<close>) and are updated in place. The heap is the list of all nodes
  allocated so far; a pointer is an index into it, \<open>nil\<close> is \<open>None\<close>, and allocation
  appends. The game state held by a node is a value of an arbitrary type \<open>'s\<close>.
\<close>

type_synonym ref = nat

record 's Node =
  state :: 's
  parent :: "ref option"
  children :: "ref list"
  visits :: int64
  totalReward :: float64

type_synonym 's heap = "'s Node list"

text \<open>
  The \<open>GameState\<close> interface: the four methods of a game, as functions of the state
  value. \<open>'a\<close> is the type of actions.
\<close>

record ('s, 'a) GameState =
  GetPossibleActions :: "'s \<Rightarrow> 'a list"
  PerformAction :: "'s \<Rightarrow> 'a \<Rightarrow> 's"
  IsTerminal :: "'s \<Rightarrow> bool"
  GetReward :: "'s \<Rightarrow> float64"

text \<open>What a run-time panic of the program is about.\<close>

datatype panic = NilDereference | IndexOutOfRange

text \<open>
  \<open>NewNode\<close> allocates a node with the given state and parent, no children, and the
  zero value of the two statistics; it returns the new pointer and the new heap.
\<close>

definition NewNode :: "'s \<Rightarrow> ref option \<Rightarrow> 's heap \<Rightarrow> ref \<times> 's heap" where
  "NewNode st par h =
     (length h,
      h @ [\<lparr>state = st, parent = par, children = [], visits = 0, totalReward = Fin 0\<rparr>])"

definition IsLeaf :: "'s heap \<Rightarrow> ref \<Rightarrow> bool" where
  "IsLeaf h n = (length (children (h ! n)) = 0)"

text \<open>
  \<open>UCTValue\<close>: reading \<open>n.parent.visits\<close> through a nil parent panics, but only after
  the test for zero visits.
\<close>

definition UCTValue :: "'s heap \<Rightarrow> ref \<Rightarrow> panic + float64" where
  "UCTValue h n =
     (if visits (h ! n) = 0 then Inr PInf
      else case parent (h ! n) of
             None \<Rightarrow> Inl NilDereference
           | Some p \<Rightarrow>
               Inr (f_add (f_div (totalReward (h ! n)) (float64_of_int (visits (h ! n))))
                      (f_mul (Fin (141 / 100))
                         (f_sqrt (f_div (f_log (float64_of_int (visits (h ! p))))
                                        (float64_of_int (visits (h ! n))))))))"

text \<open>
  The loop of \<open>Select\<close> over the children, with its two variables \<open>bestValue\<close> and
  \<open>bestChild\<close> (\<open>None\<close> is the nil pointer the variable starts with).
\<close>

fun select_loop ::
  "'s heap \<Rightarrow> ref list \<Rightarrow> float64 \<Rightarrow> ref option \<Rightarrow> panic + (float64 \<times> ref option)" where
  "select_loop h [] bestValue bestChild = Inr (bestValue, bestChild)"
| "select_loop h (child # rest) bestValue bestChild =
     (case UCTValue h child of
        Inl e \<Rightarrow> Inl e
      | Inr childValue \<Rightarrow>
          if f_gt childValue bestValue then select_loop h rest childValue (Some child)
          else select_loop h rest bestValue bestChild)"

text \<open>
  \<open>Select\<close> recurses through child pointers, which in an arbitrary heap may form a
  cycle: the result is \<open>None\<close> when the call does not return, \<open>Some (Inl e)\<close> when it
  panics (\<open>bestChild\<close> is still nil after the loop, or \<open>UCTValue\<close> panicked), and
  \<open>Some (Inr leaf)\<close> when it returns \<open>leaf\<close>.
\<close>

partial_function (option) Select :: "'s heap \<Rightarrow> ref \<Rightarrow> (panic + ref) option" where
  "Select h n =
     (if IsLeaf h n then Some (Inr n)
      else case select_loop h (children (h ! n)) NInf None of
             Inl e \<Rightarrow> Some (Inl e)
           | Inr (bestValue, None) \<Rightarrow> Some (Inl NilDereference)
           | Inr (bestValue, Some bestChild) \<Rightarrow> Select h bestChild)"

declare Select.simps [code]

text \<open>
  \<open>Expand\<close>: the loop over the actions allocates one node per action and appends it to
  \<open>n.children\<close>.
\<close>

fun expand_loop :: "('s, 'a) GameState \<Rightarrow> ref \<Rightarrow> 'a list \<Rightarrow> 's heap \<Rightarrow> 's heap" where
  "expand_loop G n [] h = h"
| "expand_loop G n (action # rest) h =
     (let newState = PerformAction G (state (h ! n)) action;
          (newNode, h1) = NewNode newState (Some n) h;
          h2 = h1[n := (h1 ! n)\<lparr>children := children (h1 ! n) @ [newNode]\<rparr>]
      in expand_loop G n rest h2)"

definition Expand :: "('s, 'a) GameState \<Rightarrow> ref \<Rightarrow> 's heap \<Rightarrow> 's heap" where
  "Expand G n h = expand_loop G n (GetPossibleActions G (state (h ! n))) h"

text \<open>
  \<open>Backpropagate\<close> recurses through parent pointers; \<open>None\<close> when the call does not
  return (a cycle of parents), \<open>Some h'\<close> with the updated heap when it does.
\<close>

partial_function (option) Backpropagate :: "'s heap \<Rightarrow> ref \<Rightarrow> float64 \<Rightarrow> 's heap option" where
  "Backpropagate h n reward =
     (let h1 = h[n := (h ! n)\<lparr>visits := visits (h ! n) + 1\<rparr>];
          h2 = h1[n := (h1 ! n)\<lparr>totalReward := f_add (totalReward (h1 ! n)) reward\<rparr>]
      in case parent (h2 ! n) of
           None \<Rightarrow> Some h2
         | Some p \<Rightarrow> Backpropagate h2 p reward)"

declare Backpropagate.simps [code]

text \<open>
  One pass through the body of the loop of \<open>MCTS\<close>. Besides the new heap it yields the
  value of the local variable \<open>reward\<close>, so that properties of the rewards of a run can
  be stated.
\<close>

definition MCTS_iteration ::
  "('s, 'a) GameState \<Rightarrow> ref \<Rightarrow> 's heap \<Rightarrow> (panic + ('s heap \<times> float64)) option" where
  "MCTS_iteration G rootNode h =
     (case Select h rootNode of
        None \<Rightarrow> None
      | Some (Inl e) \<Rightarrow> Some (Inl e)
      | Some (Inr node) \<Rightarrow>
          let h1 = (if \<not> IsTerminal G (state (h ! node)) then Expand G node h else h) in
          case Select h1 node of
            None \<Rightarrow> None
          | Some (Inl e) \<Rightarrow> Some (Inl e)
          | Some (Inr child) \<Rightarrow>
              let reward = GetReward G (state (h1 ! child)) in
              case Backpropagate h1 child reward of
                None \<Rightarrow> None
              | Some h2 \<Rightarrow> Some (Inr (h2, reward)))"

text \<open>
  The loop \<open>for i := 0; i < iterations; i++\<close>. The counter stays below \<open>iterations\<close>,
  so it never wraps and is an integer here.
\<close>

function MCTS_loop ::
  "('s, 'a) GameState \<Rightarrow> ref \<Rightarrow> int \<Rightarrow> int \<Rightarrow> 's heap \<Rightarrow> (panic + 's heap) option" where
  "MCTS_loop G rootNode i iterations h =
     (if i < iterations then
        (case MCTS_iteration G rootNode h of
           None \<Rightarrow> None
         | Some (Inl e) \<Rightarrow> Some (Inl e)
         | Some (Inr (h', reward)) \<Rightarrow> MCTS_loop G rootNode (i + 1) iterations h')
      else Some (Inr h))"
  by pat_completeness auto
termination
  by (relation "measure (\<lambda>(G, rootNode, i, iterations, h). nat (iterations - i))") auto

declare MCTS_loop.simps [simp del]

text \<open>
  \<open>MCTS\<close>, run in a heap \<open>h\<close> that may already hold nodes (those of the earlier
  searches of a game); it returns the root pointer and the heap after the search.
\<close>

definition MCTS ::
  "('s, 'a) GameState \<Rightarrow> 's \<Rightarrow> int \<Rightarrow> 's heap \<Rightarrow> (panic + (ref \<times> 's heap)) option" where
  "MCTS G rootState iterations h =
     (let (rootNode, h0) = NewNode rootState None h in
      case MCTS_loop G rootNode 0 iterations h0 of
        None \<Rightarrow> None
      | Some (Inl e) \<Rightarrow> Some (Inl e)
      | Some (Inr h') \<Rightarrow> Some (Inr (rootNode, h')))"

text \<open>
  The rewards that the successive iterations of a run evaluate, in order (the values
  of \<open>reward\<close> in the passes of \<open>MCTS_loop\<close>).
\<close>

function MCTS_rewards ::
  "('s, 'a) GameState \<Rightarrow> ref \<Rightarrow> int \<Rightarrow> int \<Rightarrow> 's heap \<Rightarrow> float64 list" where
  "MCTS_rewards G rootNode i iterations h =
     (if i < iterations then
        (case MCTS_iteration G rootNode h of
           Some (Inr (h', reward)) \<Rightarrow> reward # MCTS_rewards G rootNode (i + 1) iterations h'
         | _ \<Rightarrow> [])
      else [])"
  by pat_completeness auto
termination
  by (relation "measure (\<lambda>(G, rootNode, i, iterations, h). nat (iterations - i))") auto

declare MCTS_rewards.simps [simp del]

section \<open>Tic-tac-toe\<close>

text \<open>
  The marks \<open>Empty\<close>, \<open>X\<close>, \<open>O\<close> are the \<open>iota\<close> constants 0, 1, 2. A \<open>Board\<close> is a
  \<open>[3][3]int\<close>, an array value: a list of three rows of three cells (\<open>wf_board\<close>).
  An action is a \<open>[2]int\<close>, row and column.
\<close>

definition Empty :: int64 where "Empty = 0"
definition mark_X :: int64 where "mark_X = 1"
definition mark_O :: int64 where "mark_O = 2"

type_synonym Board = "int64 list list"

definition wf_board :: "Board \<Rightarrow> bool" where
  "wf_board b = (length b = 3 \<and> list_all (\<lambda>row. length row = 3) b)"

record TicTacToeState =
  board :: Board
  player :: int64

type_synonym Action = "int64 \<times> int64"

text \<open>
  The methods that only read the receiver are functions of the value it points to.
\<close>

definition GetPossibleActions_ttt :: "TicTacToeState \<Rightarrow> Action list" where
  "GetPossibleActions_ttt s =
     concat (map (\<lambda>i. concat (map (\<lambda>j.
        if board s ! i ! j = Empty then [(word_of_nat i, word_of_nat j)] else [])
        [0..<3])) [0..<3])"

definition checkWin :: "TicTacToeState \<Rightarrow> int64 \<Rightarrow> bool" where
  "checkWin s p =
     (list_ex (\<lambda>i.
         (board s ! i ! 0 = p \<and> board s ! i ! 1 = p \<and> board s ! i ! 2 = p) \<or>
         (board s ! 0 ! i = p \<and> board s ! 1 ! i = p \<and> board s ! 2 ! i = p)) [0..<3]
      \<or> (board s ! 0 ! 0 = p \<and> board s ! 1 ! 1 = p \<and> board s ! 2 ! 2 = p)
      \<or> (board s ! 0 ! 2 = p \<and> board s ! 1 ! 1 = p \<and> board s ! 2 ! 0 = p))"

definition checkDraw :: "TicTacToeState \<Rightarrow> bool" where
  "checkDraw s =
     list_all (\<lambda>i. list_all (\<lambda>j. board s ! i ! j \<noteq> Empty) [0..<3]) [0..<3]"

definition IsTerminal_ttt :: "TicTacToeState \<Rightarrow> bool" where
  "IsTerminal_ttt s = (checkWin s mark_X \<or> checkWin s mark_O \<or> checkDraw s)"

definition GetReward_ttt :: "TicTacToeState \<Rightarrow> float64" where
  "GetReward_ttt s =
     (if checkWin s mark_X then Fin 1
      else if checkWin s mark_O then Fin (- 1)
      else Fin 0)"

text \<open>
  \<open>PerformAction\<close> allocates the state it returns, so it is a function of the store of
  \<open>TicTacToeState\<close> objects (a list, a pointer being an index) and of the receiver
  pointer \<open>s\<close>. \<open>newBoard := s.board\<close> copies the array. An index outside the board
  panics.
\<close>

definition PerformAction_ttt ::
  "TicTacToeState list \<Rightarrow> ref \<Rightarrow> Action \<Rightarrow> panic + (ref \<times> TicTacToeState list)" where
  "PerformAction_ttt st s action =
     (let (move0, move1) = action;
          newBoard = board (st ! s)
      in if \<not> (0 \<le>s move0 \<and> move0 <s 3 \<and> 0 \<le>s move1 \<and> move1 <s 3)
         then Inl IndexOutOfRange
         else
           let r = nat (sint move0); c = nat (sint move1);
               newBoard' = newBoard[r := (newBoard ! r)[c := player (st ! s)]]
           in Inr (length st, st @ [\<lparr>board = newBoard', player = 3 - player (st ! s)\<rparr>]))"

text \<open>
  Tic-tac-toe as a \<open>GameState\<close> for the search, which handles states as values: the
  successor is the object that \<open>PerformAction\<close> allocates. The search passes only
  actions that \<open>GetPossibleActions\<close> returned; on any other action, where
  \<open>PerformAction\<close> may panic, the successor is taken to be the state itself.
\<close>

definition successor_ttt :: "TicTacToeState \<Rightarrow> Action \<Rightarrow> TicTacToeState" where
  "successor_ttt s action =
     (case PerformAction_ttt [s] 0 action of
        Inr (r, st) \<Rightarrow> st ! r
      | Inl e \<Rightarrow> s)"

definition TicTacToe :: "(TicTacToeState, Action) GameState" where
  "TicTacToe =
     \<lparr>GetPossibleActions = GetPossibleActions_ttt,
      PerformAction = successor_ttt,
      IsTerminal = IsTerminal_ttt,
      GetReward = GetReward_ttt\<rparr>"

definition empty_board :: Board where
  "empty_board = [[0, 0, 0], [0, 0, 0], [0, 0, 0]]"

section \<open>Example heaps\<close>


definition example_ttt_heap :: "TicTacToeState heap" where
  "example_ttt_heap =
     snd (NewNode \<lparr>board = [[1, 2, 1], [1, 2, 2], [2, 0, 0]], player = mark_X\<rparr> None [])"

section \<open>Notions used to state the properties\<close>

text \<open>
  \<open>parent_chain h [n, p1, ..., root]\<close>: the list is \<open>n\<close> followed by its ancestors, each
  the parent of the one before, up to a node whose parent is nil.
\<close>

fun parent_chain :: "'s heap \<Rightarrow> ref list \<Rightarrow> bool" where
  "parent_chain h [] = False"
| "parent_chain h [a] = (a < length h \<and> parent (h ! a) = None)"
| "parent_chain h (a # b # cs) =
     (a < length h \<and> parent (h ! a) = Some b \<and> parent_chain h (b # cs))"

text \<open>One more visit and reward \<open>r\<close> recorded in a node.\<close>

definition bump :: "float64 \<Rightarrow> 's Node \<Rightarrow> 's Node" where
  "bump r nd = nd\<lparr>visits := visits nd + 1, totalReward := f_add (totalReward nd) r\<rparr>"

text \<open>The node that \<open>NewNode\<close> allocates for a child of \<open>n\<close>.\<close>

definition fresh_node :: "'s \<Rightarrow> ref \<Rightarrow> 's Node" where
  "fresh_node st n =
     \<lparr>state = st, parent = Some n, children = [], visits = 0, totalReward = Fin 0\<rparr>"




text \<open>
  The nodes of the tree below \<open>r\<close>: \<open>r\<close> itself and the children of its nodes.
\<close>

inductive_set tree_nodes :: "'s heap \<Rightarrow> ref \<Rightarrow> ref set" for h :: "'s heap" and r :: ref where
  root: "r \<in> tree_nodes h r"
| child: "a \<in> tree_nodes h r \<Longrightarrow> c \<in> set (children (h ! a)) \<Longrightarrow> c \<in> tree_nodes h r"

text \<open>
  The shape of the heap during a search whose root \<open>r\<close> was allocated last before the
  search began: the nodes from \<open>r\<close> on are those of the search; \<open>r\<close> has no parent; any
  other has a parent allocated before it, from \<open>r\<close> on; and the children of a node were
  allocated after it and point back to it.
\<close>

definition tree_shape :: "ref \<Rightarrow> 's heap \<Rightarrow> bool" where
  "tree_shape r h =
     (r < length h \<and> parent (h ! r) = None \<and>
      (\<forall>a. r < a \<and> a < length h \<longrightarrow> (\<exists>p. parent (h ! a) = Some p \<and> r \<le> p \<and> p < a)) \<and>
      (\<forall>a. r \<le> a \<and> a < length h \<longrightarrow>
         (\<forall>c \<in> set (children (h ! a)). a < c \<and> c < length h \<and> parent (h ! c) = Some a)))"

text \<open>No node of the search that holds a terminal state has children.\<close>

definition terminal_leaves :: "('s, 'a) GameState \<Rightarrow> ref \<Rightarrow> 's heap \<Rightarrow> bool" where
  "terminal_leaves G r h =
     (\<forall>a. r \<le> a \<and> a < length h \<longrightarrow> IsTerminal G (state (h ! a)) \<longrightarrow> children (h ! a) = [])"

text \<open>
  The statistics of the nodes of the search after \<open>i\<close> iterations: the visit counters
  are between 0 and \<open>i\<close>, the accumulated rewards are finite, and a node that has a
  visited child has been visited.
\<close>

definition stats_ok :: "ref \<Rightarrow> 's heap \<Rightarrow> int \<Rightarrow> bool" where
  "stats_ok r h i =
     (\<forall>a. r \<le> a \<and> a < length h \<longrightarrow>
        0 \<le> sint (visits (h ! a)) \<and> sint (visits (h ! a)) \<le> i \<and>
        (\<exists>x. totalReward (h ! a) = Fin x) \<and>
        (\<forall>c \<in> set (children (h ! a)). visits (h ! c) \<noteq> 0 \<longrightarrow> visits (h ! a) \<noteq> 0))"


text \<open>
  The heap after the guarded expansion of \<open>node\<close> in the loop of \<open>MCTS\<close>.
\<close>

definition expanded :: "('s, 'a) GameState \<Rightarrow> ref \<Rightarrow> 's heap \<Rightarrow> 's heap" where
  "expanded G node h = (if \<not> IsTerminal G (state (h ! node)) then Expand G node h else h)"



section \<open>An example search\<close>

text \<open>
  A position with X to move and two empty cells, and the heaps after one, two and
  three iterations of the search from it in an empty heap. The first iteration expands
  the root and evaluates its first child; the second expands the second child, where
  O's only move wins; the third expands the first child, where O's only move fills
  the board.
\<close>

definition example_state :: TicTacToeState where
  "example_state = \<lparr>board = [[1, 2, 1], [1, 2, 2], [2, 0, 0]], player = mark_X\<rparr>"

definition example_search_1 :: "TicTacToeState heap" where
  "example_search_1 =
    [\<lparr>state = example_state, parent = None, children = [1, 2], visits = 1,
      totalReward = Fin 0\<rparr>,
     \<lparr>state = \<lparr>board = [[1, 2, 1], [1, 2, 2], [2, 1, 0]], player = mark_O\<rparr>,
      parent = Some 0, children = [], visits = 1, totalReward = Fin 0\<rparr>,
     \<lparr>state = \<lparr>board = [[1, 2, 1], [1, 2, 2], [2, 0, 1]], player = mark_O\<rparr>,
      parent = Some 0, children = [], visits = 0, totalReward = Fin 0\<rparr>]"

definition example_search_2 :: "TicTacToeState heap" where
  "example_search_2 =
    [\<lparr>state = example_state, parent = None, children = [1, 2], visits = 2,
      totalReward = Fin (- 1)\<rparr>,
     \<lparr>state = \<lparr>board = [[1, 2, 1], [1, 2, 2], [2, 1, 0]], player = mark_O\<rparr>,
      parent = Some 0, children = [], visits = 1, totalReward = Fin 0\<rparr>,
     \<lparr>state = \<lparr>board = [[1, 2, 1], [1, 2, 2], [2, 0, 1]], player = mark_O\<rparr>,
      parent = Some 0, children = [3], visits = 1, totalReward = Fin (- 1)\<rparr>,
     \<lparr>state = \<lparr>board = [[1, 2, 1], [1, 2, 2], [2, 2, 1]], player = mark_X\<rparr>,
      parent = Some 2, children = [], visits = 1, totalReward = Fin (- 1)\<rparr>]"

definition example_search_3 :: "TicTacToeState heap" where
  "example_search_3 =
    [\<lparr>state = example_state, parent = None, children = [1, 2], visits = 3,
      totalReward = Fin (- 1)\<rparr>,
     \<lparr>state = \<lparr>board = [[1, 2, 1], [1, 2, 2], [2, 1, 0]], player = mark_O\<rparr>,
      parent = Some 0, children = [4], visits = 2, totalReward = Fin 0\<rparr>,
     \<lparr>state = \<lparr>board = [[1, 2, 1], [1, 2, 2], [2, 0, 1]], player = mark_O\<rparr>,
      parent = Some 0, children = [3], visits = 1, totalReward = Fin (- 1)\<rparr>,
     \<lparr>state = \<lparr>board = [[1, 2, 1], [1, 2, 2], [2, 2, 1]], player = mark_X\<rparr>,
      parent = Some 2, children = [], visits = 1, totalReward = Fin (- 1)\<rparr>,
     \<lparr>state = \<lparr>board = [[1, 2, 1], [1, 2, 2], [2, 1, 2]], player = mark_X\<rparr>,
      parent = Some 1, children = [], visits = 1, totalReward = Fin 0\<rparr>]"

section \<open>Relocation\<close>

text \<open>
  A node, and a heap, with every pointer moved up by \<open>k\<close> addresses: what a tree built
  in the empty heap looks like when it is built behind \<open>k\<close> existing nodes instead.
\<close>

definition relocate_node :: "nat \<Rightarrow> 's Node \<Rightarrow> 's Node" where
  "relocate_node k nd =
     nd\<lparr>parent := map_option (\<lambda>p. p + k) (parent nd),
        children := map (\<lambda>c. c + k) (children nd)\<rparr>"

definition relocate :: "nat \<Rightarrow> 's heap \<Rightarrow> 's heap" where
  "relocate k t = map (relocate_node k) t"

(*PROPERTIES*)

section \<open>The UCT value\<close>







section \<open>Zero iterations\<close>

text \<open>
  Claim C9. \<open>MCTS(s, 0)\<close> returns a root with the given state, no parent, an empty
  children list, \<open>visits == 0\<close> and \<open>totalReward == 0\<close>; the nodes already in the heap are
  as they were.
\<close>

theorem MCTS_zero_iterations:
  "MCTS G s 0 h =
     Some (Inr (length h,
                h @ [\<lparr>state = s, parent = None, children = [], visits = 0,
                      totalReward = Fin 0\<rparr>]))"
  by (simp add: MCTS_def NewNode_def MCTS_loop.simps)

section \<open>Expand\<close>

lemma expand_loop_eq:
  assumes "n < length h"
  shows "expand_loop G n acts h =
     h[n := (h ! n)\<lparr>children := children (h ! n) @ [length h ..< length h + length acts]\<rparr>] @
     map (\<lambda>a. fresh_node (PerformAction G (state (h ! n)) a) n) acts"
  using assms
proof (induction acts arbitrary: h)
  case Nil
  then show ?case by simp
next
  case (Cons a acts)
  let ?nd = "fresh_node (PerformAction G (state (h ! n)) a) n"
  let ?h2 = "(h @ [?nd])[n := (h ! n)\<lparr>children := children (h ! n) @ [length h]\<rparr>]"
  have step: "expand_loop G n (a # acts) h = expand_loop G n acts ?h2"
    using Cons.prems by (simp add: NewNode_def fresh_node_def Let_def nth_append)
  have n2: "n < length ?h2" using Cons.prems by simp
  have up: "[length h..<Suc (length h + length acts)] =
      length h # [Suc (length h)..<Suc (length h + length acts)]"
    by (rule upt_conv_Cons) simp
  show ?case
    unfolding step Cons.IH [OF n2]
    using Cons.prems
    by (simp add: up list_update_append nth_append del: upt_Suc)
qed

lemma Expand_eq:
  assumes "n < length h"
  shows "Expand G n h =
     h[n := (h ! n)\<lparr>children := children (h ! n) @
                [length h ..< length h + length (GetPossibleActions G (state (h ! n)))]\<rparr>] @
     map (\<lambda>a. fresh_node (PerformAction G (state (h ! n)) a) n)
       (GetPossibleActions G (state (h ! n)))"
  unfolding Expand_def by (rule expand_loop_eq [OF assms])

text \<open>
  Claim C3. \<open>n.Expand()\<close>, for an allocated node \<open>n\<close> whose state has the \<open>k\<close> actions
  \<open>acts\<close>, allocates \<open>k\<close> nodes and appends their pointers to \<open>n.children\<close> in the
  order of the actions; the \<open>i\<close>-th of them holds the state \<open>PerformAction (acts ! i)\<close>,
  has \<open>n\<close> as parent, no children, \<open>visits == 0\<close> and \<open>totalReward == 0\<close>. So a leaf has
  exactly \<open>k\<close> children afterwards. Nothing else changes, and with no action the heap is
  unchanged.
\<close>

theorem Expand_spec:
  assumes "n < length h"
  shows "let acts = GetPossibleActions G (state (h ! n)); k = length acts;
             h' = Expand G n h
         in length h' = length h + k \<and>
            children (h' ! n) = children (h ! n) @ [length h ..< length h + k] \<and>
            (children (h ! n) = [] \<longrightarrow>
               length (children (h' ! n)) = k \<and>
               (\<forall>i < k. children (h' ! n) ! i = length h + i)) \<and>
            (\<forall>i < k. h' ! (length h + i) =
               \<lparr>state = PerformAction G (state (h ! n)) (acts ! i), parent = Some n,
                children = [], visits = 0, totalReward = Fin 0\<rparr>) \<and>
            state (h' ! n) = state (h ! n) \<and> parent (h' ! n) = parent (h ! n) \<and>
            visits (h' ! n) = visits (h ! n) \<and> totalReward (h' ! n) = totalReward (h ! n) \<and>
            (\<forall>a < length h. a \<noteq> n \<longrightarrow> h' ! a = h ! a) \<and>
            (k = 0 \<longrightarrow> h' = h)"
  unfolding Let_def Expand_eq [OF assms]
  using assms by (simp add: nth_append fresh_node_def)

theorem Expand_spec_witness:
  "0 < length example_ttt_heap \<and>
   GetPossibleActions TicTacToe (state (example_ttt_heap ! 0)) = [(2, 1), (2, 2)] \<and>
   length (Expand TicTacToe 0 example_ttt_heap) = 3 \<and>
   children (Expand TicTacToe 0 example_ttt_heap ! 0) = [1, 2] \<and>
   Expand TicTacToe 0 example_ttt_heap ! 1 =
     \<lparr>state = \<lparr>board = [[1, 2, 1], [1, 2, 2], [2, 1, 0]], player = mark_O\<rparr>,
      parent = Some 0, children = [], visits = 0, totalReward = Fin 0\<rparr> \<and>
   Expand TicTacToe 0 example_ttt_heap ! 2 =
     \<lparr>state = \<lparr>board = [[1, 2, 1], [1, 2, 2], [2, 0, 1]], player = mark_O\<rparr>,
      parent = Some 0, children = [], visits = 0, totalReward = Fin 0\<rparr>"
proof -
  have len: "0 < length example_ttt_heap"
    by (simp add: example_ttt_heap_def NewNode_def)
  have acts: "GetPossibleActions TicTacToe (state (example_ttt_heap ! 0)) = [(2, 1), (2, 2)]"
    by (simp add: example_ttt_heap_def NewNode_def TicTacToe_def GetPossibleActions_ttt_def
        Empty_def upt_rec)
  have succ: "PerformAction TicTacToe (state (example_ttt_heap ! 0)) (2, 1) =
        \<lparr>board = [[1, 2, 1], [1, 2, 2], [2, 1, 0]], player = mark_O\<rparr>"
      "PerformAction TicTacToe (state (example_ttt_heap ! 0)) (2, 2) =
        \<lparr>board = [[1, 2, 1], [1, 2, 2], [2, 0, 1]], player = mark_O\<rparr>"
    by (simp_all add: example_ttt_heap_def NewNode_def TicTacToe_def successor_ttt_def
        PerformAction_ttt_def mark_X_def mark_O_def word_sle_eq word_sless_alt)
  have ch: "children (example_ttt_heap ! 0) = []" "length example_ttt_heap = 1"
    by (simp_all add: example_ttt_heap_def NewNode_def)
  show ?thesis
    using Expand_spec [OF len, of TicTacToe] len
    by (simp add: Let_def acts succ ch upt_rec less_Suc_eq imp_disjL all_conj_distrib
        numeral_2_eq_2)
qed

section \<open>Backpropagate\<close>


lemma parent_chain_unique:
  "parent_chain h (a # xs) \<Longrightarrow> parent_chain h (a # ys) \<Longrightarrow> xs = ys"
proof (induction xs arbitrary: a ys)
  case Nil
  then show ?case by (cases ys) auto
next
  case (Cons x xs)
  then show ?case by (cases ys) auto
qed

lemma parent_chain_suffix:
  "parent_chain h (xs @ a # ys) \<Longrightarrow> parent_chain h (a # ys)"
proof (induction xs)
  case Nil
  then show ?case by simp
next
  case (Cons x xs)
  then show ?case by (cases xs) auto
qed

text \<open>A chain that ends at a node without parent does not pass twice through a node.\<close>

lemma parent_chain_fresh:
  assumes "parent_chain h (n # as)"
  shows "n \<notin> set as"
proof
  assume "n \<in> set as"
  then obtain us vs where as: "as = us @ n # vs" by (auto dest: split_list)
  then have "parent_chain h ((n # us) @ n # vs)" using assms by simp
  then have "parent_chain h (n # vs)" by (rule parent_chain_suffix)
  then have "as = vs" using assms parent_chain_unique by blast
  then show False using as by simp
qed


lemma parent_chain_update:
  assumes "parent_chain h as" "parent nd = parent (h ! n)"
  shows "parent_chain (h[n := nd]) as"
  using assms
proof (induction h as rule: parent_chain.induct)
  case (1 h)
  then show ?case by simp
next
  case (2 h a)
  then show ?case by (cases "a = n") auto
next
  case (3 h a b cs)
  then show ?case by (cases "a = n") auto
qed

lemma Backpropagate_chain:
  assumes "parent_chain h (n # as)"
  shows "\<exists>h'. Backpropagate h n r = Some h' \<and> length h' = length h \<and>
     (\<forall>a < length h. h' ! a = (if a \<in> set (n # as) then bump r (h ! a) else h ! a))"
  using assms
proof (induction as arbitrary: n h)
  case Nil
  then show ?case
    by (subst Backpropagate.simps) (auto simp: bump_def Let_def nth_list_update)
next
  case (Cons b cs)
  let ?h2 = "h[n := bump r (h ! n)]"
  from Cons.prems have n: "n < length h" and p: "parent (h ! n) = Some b"
    and ch: "parent_chain h (b # cs)" by auto
  have "parent_chain ?h2 (b # cs)"
    using ch by (rule parent_chain_update) (simp add: bump_def)
  from Cons.IH [OF this] obtain h' where h': "Backpropagate ?h2 b r = Some h'"
    "length h' = length ?h2"
    "\<forall>a < length ?h2. h' ! a = (if a \<in> set (b # cs) then bump r (?h2 ! a) else ?h2 ! a)"
    by blast
  have fresh: "n \<notin> set (b # cs)" using Cons.prems by (rule parent_chain_fresh)
  have "Backpropagate h n r = Backpropagate ?h2 b r"
    using n p by (subst Backpropagate.simps) (simp add: bump_def Let_def)
  moreover have "\<forall>a < length h. h' ! a =
      (if a \<in> set (n # b # cs) then bump r (h ! a) else h ! a)"
  proof (intro allI impI)
    fix a assume a: "a < length h"
    show "h' ! a = (if a \<in> set (n # b # cs) then bump r (h ! a) else h ! a)"
    proof (cases "a = n")
      case True
      then show ?thesis using h'(3) a fresh by simp
    next
      case False
      then show ?thesis using h'(3) a by simp
    qed
  qed
  ultimately show ?case using h'(1,2) by simp
qed



section \<open>Tic-tac-toe moves\<close>

lemma GetPossibleActions_ttt_mem:
  "(i, j) \<in> set (GetPossibleActions_ttt s) \<longleftrightarrow>
     (\<exists>a < 3. \<exists>b < 3. i = word_of_nat a \<and> j = word_of_nat b \<and> board s ! a ! b = Empty)"
  unfolding GetPossibleActions_ttt_def
  by (simp add: Bex_def)
    (metis (no_types, lifting) prod.inject empty_iff empty_set list.set_intros(1) set_ConsD)

lemma small_index:
  assumes "a < 3"
  shows "0 \<le>s (word_of_nat a :: int64) \<and> (word_of_nat a :: int64) <s 3 \<and>
         nat (sint (word_of_nat a :: int64)) = a"
proof -
  from assms consider "a = 0" | "a = 1" | "a = 2" by linarith
  then show ?thesis
    by cases (simp_all add: word_sle_eq word_sless_alt)
qed

text \<open>
  Claim C8. Let \<open>s\<close> point to a state in the store and \<open>(i, j)\<close> be one of the actions
  that \<open>GetPossibleActions\<close> returns for it. Then \<open>s.PerformAction((i, j))\<close> returns a
  newly allocated state; every state that was in the store, the receiver among them,
  is unchanged (board and player); the new state's board is the receiver's with cell
  \<open>(i, j)\<close> set to the receiver's \<open>player\<close>, and its player is \<open>3 - s.player\<close>.
\<close>

theorem PerformAction_ttt_spec:
  assumes "s < length st" "wf_board (board (st ! s))"
    "(i, j) \<in> set (GetPossibleActions_ttt (st ! s))"
  shows "\<exists>st'. PerformAction_ttt st s (i, j) = Inr (length st, st') \<and>
     length st' = Suc (length st) \<and>
     (\<forall>a < length st. st' ! a = st ! a) \<and>
     board (st' ! s) = board (st ! s) \<and> player (st' ! s) = player (st ! s) \<and>
     player (st' ! length st) = 3 - player (st ! s) \<and>
     wf_board (board (st' ! length st)) \<and>
     (\<forall>a < 3. \<forall>b < 3. board (st' ! length st) ! a ! b =
        (if a = nat (sint i) \<and> b = nat (sint j) then player (st ! s)
         else board (st ! s) ! a ! b))"
proof -
  from assms(3) obtain a b where ab: "a < 3" "b < 3" "i = word_of_nat a" "j = word_of_nat b"
    by (auto simp: GetPossibleActions_ttt_mem)
  note ia = small_index [OF ab(1)] and jb = small_index [OF ab(2)]
  let ?B = "board (st ! s)"
  let ?B' = "?B[a := (?B ! a)[b := player (st ! s)]]"
  let ?st' = "st @ [\<lparr>board = ?B', player = 3 - player (st ! s)\<rparr>]"
  have eq: "PerformAction_ttt st s (i, j) = Inr (length st, ?st')"
    using ia jb ab(3,4) by (simp add: PerformAction_ttt_def Let_def)
  have len: "length ?B = 3" "\<forall>k < 3. length (?B ! k) = 3"
    using assms(2) by (auto simp: wf_board_def list_all_length)
  have wf: "wf_board ?B'"
    using len ab by (auto simp: wf_board_def list_all_length nth_list_update)
  have cells: "\<forall>x < 3. \<forall>y < 3. ?B' ! x ! y =
        (if x = nat (sint i) \<and> y = nat (sint j) then player (st ! s) else ?B ! x ! y)"
    using len ab ia jb by (auto simp: nth_list_update)
  show ?thesis
    using eq wf cells assms(1) by (simp add: nth_append)
qed

theorem PerformAction_ttt_spec_witness:
  "(0 :: nat) < length [\<lparr>board = empty_board, player = mark_X\<rparr>] \<and>
   wf_board (board ([\<lparr>board = empty_board, player = mark_X\<rparr>] ! 0)) \<and>
   (1, 1) \<in> set (GetPossibleActions_ttt ([\<lparr>board = empty_board, player = mark_X\<rparr>] ! 0)) \<and>
   PerformAction_ttt [\<lparr>board = empty_board, player = mark_X\<rparr>] 0 (1, 1) =
     Inr (1, [\<lparr>board = empty_board, player = mark_X\<rparr>,
              \<lparr>board = [[0, 0, 0], [0, 1, 0], [0, 0, 0]], player = mark_O\<rparr>])"
proof -
  let ?st = "[\<lparr>board = empty_board, player = mark_X\<rparr>]"
  have a: "(0 :: nat) < length ?st" by simp
  have b: "wf_board (board (?st ! 0))" by (simp add: wf_board_def empty_board_def)
  have c: "(1, 1) \<in> set (GetPossibleActions_ttt (?st ! 0))"
    by (simp add: GetPossibleActions_ttt_def empty_board_def Empty_def upt_rec)
  from PerformAction_ttt_spec [OF a b c] obtain st' where
    "PerformAction_ttt ?st 0 (1, 1) = Inr (length ?st, st')" by blast
  then show ?thesis using a b c
    by (simp add: PerformAction_ttt_def empty_board_def mark_X_def mark_O_def
        word_sle_eq word_sless_alt)
qed

section \<open>Select\<close>





lemma f_gt_trans_le:
  "f_gt a NInf \<Longrightarrow> f_gt b NInf \<Longrightarrow> f_gt c NInf \<Longrightarrow> \<not> f_gt b a \<Longrightarrow> \<not> f_gt c b \<Longrightarrow> \<not> f_gt c a"
  by (cases a; cases b; cases c) auto





lemma Select_leaf: "children (h ! n) = [] \<Longrightarrow> Select h n = Some (Inr n)"
  by (subst Select.simps) (simp add: IsLeaf_def)








section \<open>The shape of the tree during a search\<close>

lemma select_loop_result:
  "select_loop h cs bv bc = Inr (v, Some c) \<Longrightarrow> c \<in> set cs \<or> bc = Some c"
proof (induction cs arbitrary: bv bc)
  case Nil
  then show ?case by simp
next
  case (Cons d cs)
  show ?case
  proof (cases "UCTValue h d")
    case (Inl e)
    then show ?thesis using Cons.prems by simp
  next
    case (Inr w)
    show ?thesis
    proof (cases "f_gt w bv")
      case True
      then have "select_loop h cs w (Some d) = Inr (v, Some c)" using Cons.prems Inr by simp
      from Cons.IH [OF this] show ?thesis by auto
    next
      case False
      then have "select_loop h cs bv bc = Inr (v, Some c)" using Cons.prems Inr by simp
      from Cons.IH [OF this] show ?thesis by auto
    qed
  qed
qed

lemma Select_unfold_inner:
  assumes "children (h ! a) \<noteq> []"
  shows "Select h a =
     (case select_loop h (children (h ! a)) NInf None of
        Inl e \<Rightarrow> Some (Inl e)
      | Inr (bestValue, None) \<Rightarrow> Some (Inl NilDereference)
      | Inr (bestValue, Some bestChild) \<Rightarrow> Select h bestChild)"
  using assms by (subst Select.simps) (simp add: IsLeaf_def)

lemma Select_in_tree:
  assumes "tree_shape r h"
  shows "r \<le> a \<Longrightarrow> a < length h \<Longrightarrow>
     (\<exists>e. Select h a = Some (Inl e)) \<or>
     (\<exists>l. Select h a = Some (Inr l) \<and> a \<le> l \<and> l < length h \<and> children (h ! l) = [])"
proof (induction "length h - a" arbitrary: a rule: less_induct)
  case less
  show ?case
  proof (cases "children (h ! a) = []")
    case True
    then show ?thesis using less.prems by (simp add: Select_leaf)
  next
    case False
    note unf = Select_unfold_inner [OF False]
    show ?thesis
    proof (cases "select_loop h (children (h ! a)) NInf None")
      case (Inl e)
      then show ?thesis using unf by simp
    next
      case (Inr res)
      obtain v bc where res: "res = (v, bc)" by (cases res)
      show ?thesis
      proof (cases bc)
        case None
        then show ?thesis using unf Inr res by simp
      next
        case (Some c)
        then have "c \<in> set (children (h ! a))"
          using select_loop_result [of h _ NInf None v c] Inr res by auto
        then have c: "a < c" "c < length h"
          using assms less.prems unfolding tree_shape_def by blast+
        then have "length h - c < length h - a" "r \<le> c" using less.prems by linarith+
        from less.hyps [OF this(1) this(2) c(2)] have
          "(\<exists>e. Select h c = Some (Inl e)) \<or>
           (\<exists>l. Select h c = Some (Inr l) \<and> c \<le> l \<and> l < length h \<and> children (h ! l) = [])" .
        moreover have "Select h a = Select h c" using unf Inr res Some by simp
        ultimately show ?thesis using c(1) by auto
      qed
    qed
  qed
qed

lemma chain_to_root:
  assumes "tree_shape r h"
  shows "r \<le> a \<Longrightarrow> a < length h \<Longrightarrow>
     \<exists>as. parent_chain h (a # as) \<and> last (a # as) = r \<and> (\<forall>b \<in> set (a # as). r \<le> b \<and> b < length h)"
proof (induction a rule: less_induct)
  case (less a)
  show ?case
  proof (cases "a = r")
    case True
    then have "parent_chain h [a]" using assms unfolding tree_shape_def by simp
    then show ?thesis using True less.prems by (intro exI [of _ "[]"]) simp
  next
    case False
    then have "r < a" using less.prems by simp
    then obtain p where p: "parent (h ! a) = Some p" "r \<le> p" "p < a"
      using assms less.prems unfolding tree_shape_def by blast
    then have "p < length h" using less.prems by simp
    from less.IH [OF p(3) p(2) this] obtain as where
      as: "parent_chain h (p # as)" "last (p # as) = r"
        "\<forall>b \<in> set (p # as). r \<le> b \<and> b < length h" by blast
    have "parent_chain h (a # p # as)" using as(1) p(1) less.prems by simp
    then show ?thesis using as less.prems by (intro exI [of _ "p # as"]) simp
  qed
qed

lemma tree_shape_root: "tree_shape r h \<Longrightarrow> r < length h \<and> parent (h ! r) = None"
  unfolding tree_shape_def by blast

lemma tree_shape_parent:
  "tree_shape r h \<Longrightarrow> r < a \<Longrightarrow> a < length h \<Longrightarrow> \<exists>p. parent (h ! a) = Some p \<and> r \<le> p \<and> p < a"
  unfolding tree_shape_def by blast

lemma tree_shape_child:
  "tree_shape r h \<Longrightarrow> r \<le> a \<Longrightarrow> a < length h \<Longrightarrow> c \<in> set (children (h ! a)) \<Longrightarrow>
     a < c \<and> c < length h \<and> parent (h ! c) = Some a"
  unfolding tree_shape_def by blast

lemma tree_shapeI:
  assumes "r < length h" "parent (h ! r) = None"
    "\<And>a. r < a \<Longrightarrow> a < length h \<Longrightarrow> \<exists>p. parent (h ! a) = Some p \<and> r \<le> p \<and> p < a"
    "\<And>a c. r \<le> a \<Longrightarrow> a < length h \<Longrightarrow> c \<in> set (children (h ! a)) \<Longrightarrow>
       a < c \<and> c < length h \<and> parent (h ! c) = Some a"
  shows "tree_shape r h"
  unfolding tree_shape_def
proof (intro conjI allI impI ballI)
  show "r < length h" by (rule assms(1))
  show "parent (h ! r) = None" by (rule assms(2))
  show "\<exists>p. parent (h ! a) = Some p \<and> r \<le> p \<and> p < a" if "r < a \<and> a < length h" for a
    using assms(3) that by blast
  show "a < c" if "r \<le> a \<and> a < length h" "c \<in> set (children (h ! a))" for a c
    using assms(4) that by blast
  show "c < length h" if "r \<le> a \<and> a < length h" "c \<in> set (children (h ! a))" for a c
    using assms(4) that by blast
  show "parent (h ! c) = Some a" if "r \<le> a \<and> a < length h" "c \<in> set (children (h ! a))" for a c
    using assms(4) that by blast
qed

lemma tree_shape_fields:
  assumes "tree_shape r h" "length h' = length h"
    "\<forall>a < length h. parent (h' ! a) = parent (h ! a) \<and> children (h' ! a) = children (h ! a)"
  shows "tree_shape r h'"
proof (rule tree_shapeI)
  have p: "parent (h' ! a) = parent (h ! a)" if "a < length h" for a
    using assms(3) that by blast
  have c: "children (h' ! a) = children (h ! a)" if "a < length h" for a
    using assms(3) that by blast
  note rt = tree_shape_root [OF assms(1)]
  show "r < length h'" using rt assms(2) by simp
  show "parent (h' ! r) = None" using rt p [of r] by simp
  show "\<exists>q. parent (h' ! a) = Some q \<and> r \<le> q \<and> q < a" if "r < a" "a < length h'" for a
  proof -
    have a: "a < length h" using that assms(2) by simp
    from tree_shape_parent [OF assms(1) that(1) a] show ?thesis using p [OF a] by simp
  qed
  show "a < d \<and> d < length h' \<and> parent (h' ! d) = Some a"
    if "r \<le> a" "a < length h'" "d \<in> set (children (h' ! a))" for a d
  proof -
    have a: "a < length h" using that assms(2) by simp
    then have "d \<in> set (children (h ! a))" using that(3) c [of a] by simp
    from tree_shape_child [OF assms(1) that(1) a this]
    show ?thesis using p [of d] assms(2) by simp
  qed
qed

lemma Expand_length:
  "n < length h \<Longrightarrow> length (Expand G n h) = length h + length (GetPossibleActions G (state (h ! n)))"
  by (simp add: Expand_eq)

lemma Expand_nth_old:
  "n < length h \<Longrightarrow> a < length h \<Longrightarrow> a \<noteq> n \<Longrightarrow> Expand G n h ! a = h ! a"
  by (simp add: Expand_eq nth_append)

lemma Expand_nth_self:
  "n < length h \<Longrightarrow> Expand G n h ! n =
     (h ! n)\<lparr>children := children (h ! n) @
        [length h ..< length h + length (GetPossibleActions G (state (h ! n)))]\<rparr>"
  by (simp add: Expand_eq nth_append)

lemma Expand_nth_new:
  "n < length h \<Longrightarrow> length h \<le> a \<Longrightarrow> a < length (Expand G n h) \<Longrightarrow>
     Expand G n h ! a =
       fresh_node (PerformAction G (state (h ! n))
         (GetPossibleActions G (state (h ! n)) ! (a - length h))) n"
  by (simp add: Expand_eq nth_append)

lemma Expand_tree_shape:
  assumes "tree_shape r h" "r \<le> n" "n < length h"
  shows "tree_shape r (Expand G n h)"
proof (rule tree_shapeI)
  let ?h' = "Expand G n h"
  let ?k = "length (GetPossibleActions G (state (h ! n)))"
  note rt = tree_shape_root [OF assms(1)]
  have len: "length ?h' = length h + ?k" using assms(3) by (rule Expand_length)
  have par_old: "parent (?h' ! a) = parent (h ! a)" if "a < length h" for a
  proof (cases "a = n")
    case True
    then show ?thesis using assms(3) by (simp add: Expand_nth_self)
  next
    case False
    then show ?thesis using that assms(3) by (simp add: Expand_nth_old)
  qed
  have new: "?h' ! a = fresh_node (PerformAction G (state (h ! n))
         (GetPossibleActions G (state (h ! n)) ! (a - length h))) n"
    if "length h \<le> a" "a < length ?h'" for a
    using assms(3) that by (rule Expand_nth_new)
  have par_new: "parent (?h' ! a) = Some n" if "length h \<le> a" "a < length ?h'" for a
    unfolding new [OF that] by (simp add: fresh_node_def)
  have ch_new: "children (?h' ! a) = []" if "length h \<le> a" "a < length ?h'" for a
    unfolding new [OF that] by (simp add: fresh_node_def)
  have ch_old: "children (?h' ! a) = children (h ! a)" if "a < length h" "a \<noteq> n" for a
    using that assms(3) by (simp add: Expand_nth_old)
  have ch_self: "children (?h' ! n) = children (h ! n) @ [length h ..< length h + ?k]"
    using assms(3) by (simp add: Expand_nth_self)
  show "r < length ?h'" using rt len by simp
  show "parent (?h' ! r) = None" using rt par_old [of r] by simp
  show "\<exists>p. parent (?h' ! a) = Some p \<and> r \<le> p \<and> p < a" if "r < a" "a < length ?h'" for a
  proof (cases "a < length h")
    case True
    from tree_shape_parent [OF assms(1) that(1) True] show ?thesis
      using par_old [OF True] by simp
  next
    case False
    then have "parent (?h' ! a) = Some n" using par_new [of a] that by simp
    then show ?thesis using False assms(2,3) by simp
  qed
  show "a < c \<and> c < length ?h' \<and> parent (?h' ! c) = Some a"
    if "r \<le> a" "a < length ?h'" "c \<in> set (children (?h' ! a))" for a c
  proof (cases "a < length h")
    case False
    then have "children (?h' ! a) = []" using ch_new [of a] that(2) by simp
    then show ?thesis using that(3) by simp
  next
    case a: True
    show ?thesis
    proof (cases "c \<in> set (children (h ! a))")
      case True
      from tree_shape_child [OF assms(1) that(1) a True]
      have c: "a < c" "c < length h" "parent (h ! c) = Some a" by simp_all
      then show ?thesis using len par_old [OF c(2)] by simp
    next
      case False
      have an: "a = n"
      proof (rule ccontr)
        assume "a \<noteq> n"
        then have "children (?h' ! a) = children (h ! a)" using ch_old a by simp
        then show False using that(3) False by simp
      qed
      then have "c \<in> set [length h ..< length h + ?k]"
        using that(3) False unfolding an ch_self by simp
      then have c: "length h \<le> c" "c < length ?h'" unfolding len by simp_all
      have "parent (?h' ! c) = Some n" using c by (rule par_new)
      then show ?thesis using an assms(3) c by simp
    qed
  qed
qed

lemma Backpropagate_in_tree:
  assumes "tree_shape r h" "r \<le> n" "n < length h"
  shows "\<exists>h' as. Backpropagate h n rw = Some h' \<and> length h' = length h \<and>
     parent_chain h (n # as) \<and> r \<in> set (n # as) \<and>
     (\<forall>b \<in> set (n # as). r \<le> b \<and> b < length h) \<and>
     (\<forall>a < length h. h' ! a = (if a \<in> set (n # as) then bump rw (h ! a) else h ! a))"
proof -
  from chain_to_root [OF assms] obtain as where
    as: "parent_chain h (n # as)" "last (n # as) = r"
      "\<forall>b \<in> set (n # as). r \<le> b \<and> b < length h" by blast
  have "r \<in> set (n # as)" using as(2) last_in_set [of "n # as"] by simp
  with Backpropagate_chain [OF as(1), of rw] as show ?thesis by blast
qed

section \<open>One iteration\<close>

lemma MCTS_iteration_Some:
  "MCTS_iteration G r h = Some (Inr (h', rw)) \<longleftrightarrow>
     (\<exists>node child.
        Select h r = Some (Inr node) \<and>
        Select (expanded G node h) node = Some (Inr child) \<and>
        rw = GetReward G (state (expanded G node h ! child)) \<and>
        Backpropagate (expanded G node h) child rw = Some h')"
  unfolding MCTS_iteration_def Let_def expanded_def
  by (auto split: option.splits sum.splits)

lemma expanded_facts:
  assumes "tree_shape r h" "r \<le> n" "n < length h"
  shows "tree_shape r (expanded G n h)" "length h \<le> length (expanded G n h)"
    "\<And>a. a < length h \<Longrightarrow> a \<noteq> n \<Longrightarrow> expanded G n h ! a = h ! a"
    "state (expanded G n h ! n) = state (h ! n)" "parent (expanded G n h ! n) = parent (h ! n)"
    "visits (expanded G n h ! n) = visits (h ! n)"
    "totalReward (expanded G n h ! n) = totalReward (h ! n)"
    "IsTerminal G (state (h ! n)) \<Longrightarrow> expanded G n h = h"
    "\<And>a. length h \<le> a \<Longrightarrow> a < length (expanded G n h) \<Longrightarrow>
        children (expanded G n h ! a) = [] \<and> visits (expanded G n h ! a) = 0 \<and>
        totalReward (expanded G n h ! a) = Fin 0 \<and> parent (expanded G n h ! a) = Some n"
    "\<And>c. c \<in> set (children (expanded G n h ! n)) \<Longrightarrow>
        c \<in> set (children (h ! n)) \<or> length h \<le> c"
proof -
  let ?h1 = "expanded G n h"
  show "tree_shape r ?h1" unfolding expanded_def using assms(1-3) by (simp add: Expand_tree_shape)
  show "length h \<le> length ?h1" unfolding expanded_def using assms(3) by (simp add: Expand_length)
  show "?h1 ! a = h ! a" if "a < length h" "a \<noteq> n" for a
    unfolding expanded_def using that assms(3) by (simp add: Expand_nth_old)
  show "state (?h1 ! n) = state (h ! n)" "parent (?h1 ! n) = parent (h ! n)"
    "visits (?h1 ! n) = visits (h ! n)" "totalReward (?h1 ! n) = totalReward (h ! n)"
    unfolding expanded_def using assms(3) by (simp_all add: Expand_nth_self)
  show "IsTerminal G (state (h ! n)) \<Longrightarrow> ?h1 = h" unfolding expanded_def by simp
  show "children (?h1 ! a) = [] \<and> visits (?h1 ! a) = 0 \<and>
        totalReward (?h1 ! a) = Fin 0 \<and> parent (?h1 ! a) = Some n"
    if "length h \<le> a" "a < length ?h1" for a
  proof (cases "IsTerminal G (state (h ! n))")
    case True
    then show ?thesis using that unfolding expanded_def by simp
  next
    case False
    then have "?h1 = Expand G n h" unfolding expanded_def by simp
    then show ?thesis using that assms(3) by (simp add: Expand_nth_new fresh_node_def)
  qed
  show "c \<in> set (children (h ! n)) \<or> length h \<le> c" if "c \<in> set (children (?h1 ! n))" for c
  proof (cases "IsTerminal G (state (h ! n))")
    case True
    then show ?thesis using that unfolding expanded_def by simp
  next
    case False
    then have "?h1 = Expand G n h" unfolding expanded_def by simp
    then show ?thesis using that assms(3) by (auto simp: Expand_nth_self)
  qed
qed

lemma bump_fields:
  "state (bump rw nd) = state nd" "parent (bump rw nd) = parent nd"
  "children (bump rw nd) = children nd" "visits (bump rw nd) = visits nd + 1"
  "totalReward (bump rw nd) = f_add (totalReward nd) rw"
  by (simp_all add: bump_def)

text \<open>What one iteration that returns does, in a heap of the shape of a search.\<close>

lemma MCTS_iteration_step:
  assumes ts: "tree_shape r h" and it: "MCTS_iteration G r h = Some (Inr (h', rw))"
  shows "\<exists>node child as.
     Select h r = Some (Inr node) \<and> r \<le> node \<and> node < length h \<and> children (h ! node) = [] \<and>
     Select (expanded G node h) node = Some (Inr child) \<and>
     node \<le> child \<and> child < length (expanded G node h) \<and>
     rw = GetReward G (state (expanded G node h ! child)) \<and>
     tree_shape r (expanded G node h) \<and>
     parent_chain (expanded G node h) (child # as) \<and> r \<in> set (child # as) \<and>
     (\<forall>b \<in> set (child # as). r \<le> b \<and> b < length (expanded G node h)) \<and>
     length h' = length (expanded G node h) \<and>
     (\<forall>a < length h'. h' ! a =
        (if a \<in> set (child # as) then bump rw (expanded G node h ! a)
         else expanded G node h ! a))"
proof -
  from it obtain node child where nc:
    "Select h r = Some (Inr node)"
    "Select (expanded G node h) node = Some (Inr child)"
    "rw = GetReward G (state (expanded G node h ! child))"
    "Backpropagate (expanded G node h) child rw = Some h'"
    unfolding MCTS_iteration_Some by blast
  let ?h1 = "expanded G node h"
  note rt = tree_shape_root [OF ts]
  from Select_in_tree [OF ts, of r] rt nc(1)
  have node: "r \<le> node" "node < length h" "children (h ! node) = []" by auto
  note ef = expanded_facts [OF ts node(1,2), where G = G]
  have n1: "node < length ?h1" using node(2) ef(2) by simp
  from Select_in_tree [OF ef(1) node(1) n1] nc(2)
  have child: "node \<le> child" "child < length ?h1" by auto
  then have rc: "r \<le> child" using node(1) by simp
  from Backpropagate_in_tree [OF ef(1) rc child(2), of rw] nc(4)
  obtain as where as: "length h' = length ?h1" "parent_chain ?h1 (child # as)"
    "r \<in> set (child # as)" "\<forall>b \<in> set (child # as). r \<le> b \<and> b < length ?h1"
    "\<forall>a < length ?h1. h' ! a = (if a \<in> set (child # as) then bump rw (?h1 ! a) else ?h1 ! a)"
    by auto
  show ?thesis
    using nc(1,2,3) node child ef(1) as by (intro exI [of _ node] exI [of _ child] exI [of _ as]) simp
qed

lemma MCTS_iteration_total:
  assumes ts: "tree_shape r h"
  shows "MCTS_iteration G r h \<noteq> None"
proof -
  note rt = tree_shape_root [OF ts]
  from Select_in_tree [OF ts, of r] rt consider e where "Select h r = Some (Inl e)"
    | node where "Select h r = Some (Inr node)" "r \<le> node" "node < length h"
    by auto
  then show ?thesis
  proof cases
    case 1
    then show ?thesis by (simp add: MCTS_iteration_def)
  next
    case 2
    let ?h1 = "expanded G node h"
    note ef = expanded_facts [OF ts 2(2,3), where G = G]
    have n1: "node < length ?h1" using 2(3) ef(2) by simp
    from Select_in_tree [OF ef(1) 2(2) n1] consider e where "Select ?h1 node = Some (Inl e)"
      | child where "Select ?h1 node = Some (Inr child)" "node \<le> child" "child < length ?h1"
      by auto
    then show ?thesis
    proof cases
      case 1
      then show ?thesis using 2(1) by (simp add: MCTS_iteration_def expanded_def Let_def)
    next
      case c: 2
      have rc: "r \<le> child" using 2(2) c(2) by simp
      from Backpropagate_in_tree [OF ef(1) rc c(3), of "GetReward G (state (?h1 ! child))"]
      obtain h' where "Backpropagate ?h1 child (GetReward G (state (?h1 ! child))) = Some h'"
        by blast
      then show ?thesis using 2(1) c(1)
        by (simp add: MCTS_iteration_def expanded_def Let_def)
    qed
  qed
qed

lemma MCTS_iteration_preserves:
  assumes ts: "tree_shape r h" and it: "MCTS_iteration G r h = Some (Inr (h', rw))"
  shows "tree_shape r h'" "length h \<le> length h'" "\<forall>a < r. h' ! a = h ! a"
    "visits (h' ! r) = visits (h ! r) + 1"
    "totalReward (h' ! r) = f_add (totalReward (h ! r)) rw"
    "state (h' ! r) = state (h ! r)"
    "terminal_leaves G r h \<Longrightarrow> terminal_leaves G r h'"
proof -
  from MCTS_iteration_step [OF ts it] obtain node child as where
    node: "r \<le> node" "node < length h" "children (h ! node) = []"
    and ts1: "tree_shape r (expanded G node h)"
    and as: "r \<in> set (child # as)"
      "\<forall>b \<in> set (child # as). r \<le> b \<and> b < length (expanded G node h)"
    and len: "length h' = length (expanded G node h)"
    and h': "\<forall>a < length h'. h' ! a =
        (if a \<in> set (child # as) then bump rw (expanded G node h ! a)
         else expanded G node h ! a)"
    by blast
  let ?h1 = "expanded G node h"
  note ef = expanded_facts [OF ts node(1,2), where G = G]
  note rt = tree_shape_root [OF ts]
  have same: "parent (h' ! a) = parent (?h1 ! a) \<and> children (h' ! a) = children (?h1 ! a) \<and>
      state (h' ! a) = state (?h1 ! a)" if "a < length ?h1" for a
    using h' that len by (simp add: bump_fields)
  show "tree_shape r h'"
    by (rule tree_shape_fields [OF ts1 len]) (use same in blast)
  show "length h \<le> length h'" using ef(2) len by simp
  show "\<forall>a < r. h' ! a = h ! a"
  proof (intro allI impI)
    fix a assume a: "a < r"
    then have "a \<notin> set (child # as)" using as(2) by auto
    moreover have "a < length h'" using a rt ef(2) len by simp
    ultimately have "h' ! a = ?h1 ! a" using h' by simp
    moreover have "?h1 ! a = h ! a" using ef(3) [of a] a rt node(1) by simp
    ultimately show "h' ! a = h ! a" by simp
  qed
  have r1: "r < length h'" using rt ef(2) len by simp
  then have hr: "h' ! r = bump rw (?h1 ! r)" using h' as(1) by simp
  have root1: "visits (?h1 ! r) = visits (h ! r) \<and> totalReward (?h1 ! r) = totalReward (h ! r) \<and>
      state (?h1 ! r) = state (h ! r)"
  proof (cases "r = node")
    case True
    then show ?thesis using ef(4,6,7) by simp
  next
    case False
    then show ?thesis using ef(3) [of r] rt by simp
  qed
  show "visits (h' ! r) = visits (h ! r) + 1"
    "totalReward (h' ! r) = f_add (totalReward (h ! r)) rw"
    "state (h' ! r) = state (h ! r)"
    unfolding hr using root1 by (simp_all add: bump_fields)
  show "terminal_leaves G r h'" if tl: "terminal_leaves G r h"
    unfolding terminal_leaves_def
  proof (intro allI impI)
    fix a assume a: "r \<le> a \<and> a < length h'" and t: "IsTerminal G (state (h' ! a))"
    then have a1: "a < length ?h1" using len by simp
    have t1: "IsTerminal G (state (?h1 ! a))" using t same [OF a1] by simp
    have "children (?h1 ! a) = []"
    proof (cases "a < length h")
      case False
      then show ?thesis using ef(9) [of a] a1 by simp
    next
      case True
      show ?thesis
      proof (cases "a = node")
        case True
        then have "IsTerminal G (state (h ! node))" using t1 ef(4) by simp
        then have "?h1 = h" by (rule ef(8))
        then show ?thesis using True node(3) by simp
      next
        case False
        then have "?h1 ! a = h ! a" using ef(3) True by simp
        then show ?thesis using tl t1 a True unfolding terminal_leaves_def by simp
      qed
    qed
    then show "children (h' ! a) = []" using same [OF a1] by simp
  qed
qed

section \<open>The loop of the search\<close>

lemma MCTS_loop_done: "\<not> i < N \<Longrightarrow> MCTS_loop G r i N h = Some (Inr h)"
  by (subst MCTS_loop.simps) simp

lemma MCTS_rewards_done: "\<not> i < N \<Longrightarrow> MCTS_rewards G r i N h = []"
  by (subst MCTS_rewards.simps) simp

lemma MCTS_loop_step:
  "i < N \<Longrightarrow> MCTS_iteration G r h = Some (Inr (h1, rw)) \<Longrightarrow>
     MCTS_loop G r i N h = MCTS_loop G r (i + 1) N h1"
  by (subst MCTS_loop.simps) simp

lemma MCTS_rewards_step:
  "i < N \<Longrightarrow> MCTS_iteration G r h = Some (Inr (h1, rw)) \<Longrightarrow>
     MCTS_rewards G r i N h = rw # MCTS_rewards G r (i + 1) N h1"
  by (subst MCTS_rewards.simps) simp

lemma MCTS_loop_Some_step:
  assumes "i < N" "MCTS_loop G r i N h = Some (Inr h')"
  shows "\<exists>h1 rw. MCTS_iteration G r h = Some (Inr (h1, rw)) \<and>
     MCTS_loop G r (i + 1) N h1 = Some (Inr h')"
proof -
  have "MCTS_loop G r i N h =
      (case MCTS_iteration G r h of
           None \<Rightarrow> None
         | Some (Inl e) \<Rightarrow> Some (Inl e)
         | Some (Inr (h1, reward)) \<Rightarrow> MCTS_loop G r (i + 1) N h1)"
    using assms(1) by (subst MCTS_loop.simps) simp
  then show ?thesis using assms(2)
    by (cases "MCTS_iteration G r h") (auto split: sum.splits)
qed

lemma MCTS_loop_partial:
  assumes "tree_shape r h" "MCTS_loop G r i N h = Some (Inr h')" "i \<le> N" "n = nat (N - i)"
  shows "tree_shape r h' \<and> length h \<le> length h' \<and> (\<forall>a < r. h' ! a = h ! a) \<and>
     visits (h' ! r) = visits (h ! r) + word_of_int (N - i) \<and>
     totalReward (h' ! r) = foldl f_add (totalReward (h ! r)) (MCTS_rewards G r i N h) \<and>
     int (length (MCTS_rewards G r i N h)) = N - i \<and>
     state (h' ! r) = state (h ! r) \<and>
     (terminal_leaves G r h \<longrightarrow> terminal_leaves G r h')"
  using assms
proof (induction n arbitrary: i h)
  case 0
  then have "\<not> i < N" by simp
  then have "h' = h" "MCTS_rewards G r i N h = []" "N - i = 0"
    using 0 by (simp_all add: MCTS_loop_done MCTS_rewards_done)
  then show ?case using 0 by simp
next
  case (Suc n)
  then have lt: "i < N" by simp
  from MCTS_loop_Some_step [OF lt Suc.prems(2)] obtain h1 rw where
    it: "MCTS_iteration G r h = Some (Inr (h1, rw))"
    and rest: "MCTS_loop G r (i + 1) N h1 = Some (Inr h')" by blast
  note pr = MCTS_iteration_preserves [OF Suc.prems(1) it]
  have n: "n = nat (N - (i + 1))" using Suc.prems(4) by simp
  have le: "i + 1 \<le> N" using lt by simp
  note ih = Suc.IH [OF pr(1) rest le n]
  have rws: "MCTS_rewards G r i N h = rw # MCTS_rewards G r (i + 1) N h1"
    using lt it by (rule MCTS_rewards_step)
  have w: "(1 :: int64) + word_of_int (N - (i + 1)) = word_of_int (N - i)"
    by simp
  have v: "visits (h' ! r) = visits (h ! r) + word_of_int (N - i)"
    using ih pr(4) w by (simp add: add.assoc)
  have frame: "\<forall>a < r. h' ! a = h ! a" using ih pr(3) by simp
  have t: "terminal_leaves G r h \<longrightarrow> terminal_leaves G r h'" using ih pr(7) by blast
  show ?case
    using ih v frame t pr(2,5,6) unfolding rws by simp
qed

section \<open>The search returns when the rewards are finite\<close>



lemma stats_okI:
  assumes "\<And>a. r \<le> a \<Longrightarrow> a < length h \<Longrightarrow>
     0 \<le> sint (visits (h ! a)) \<and> sint (visits (h ! a)) \<le> i \<and>
     (\<exists>x. totalReward (h ! a) = Fin x) \<and>
     (\<forall>c \<in> set (children (h ! a)). visits (h ! c) \<noteq> 0 \<longrightarrow> visits (h ! a) \<noteq> 0)"
  shows "stats_ok r h i"
  unfolding stats_ok_def using assms by blast








lemma NewNode_tree:
  "tree_shape (length h) (snd (NewNode s None h))"
  "stats_ok (length h) (snd (NewNode s None h)) 0"
  "terminal_leaves G (length h) (snd (NewNode s None h))"
proof -
  let ?h0 = "snd (NewNode s None h)"
  have n: "length ?h0 = Suc (length h)"
    "?h0 ! length h = \<lparr>state = s, parent = None, children = [], visits = 0, totalReward = Fin 0\<rparr>"
    by (simp_all add: NewNode_def)
  have only: "a = length h" if "length h \<le> a" "a < length ?h0" for a
    using that n(1) by simp
  show "tree_shape (length h) ?h0"
  proof (rule tree_shapeI)
    show "length h < length ?h0" using n(1) by simp
    show "parent (?h0 ! length h) = None" using n(2) by simp
    show "\<exists>p. parent (?h0 ! a) = Some p \<and> length h \<le> p \<and> p < a"
      if "length h < a" "a < length ?h0" for a using that n(1) by simp
    show "a < c \<and> c < length ?h0 \<and> parent (?h0 ! c) = Some a"
      if "length h \<le> a" "a < length ?h0" "c \<in> set (children (?h0 ! a))" for a c
      using only [OF that(1,2)] that(3) n(2) by simp
  qed
  show "stats_ok (length h) ?h0 0"
  proof (rule stats_okI)
    fix a assume "length h \<le> a" "a < length ?h0"
    then have "a = length h" by (rule only)
    then show "0 \<le> sint (visits (?h0 ! a)) \<and> sint (visits (?h0 ! a)) \<le> 0 \<and>
       (\<exists>x. totalReward (?h0 ! a) = Fin x) \<and>
       (\<forall>c \<in> set (children (?h0 ! a)). visits (?h0 ! c) \<noteq> 0 \<longrightarrow> visits (?h0 ! a) \<noteq> 0)"
      using n(2) by simp
  qed
  show "terminal_leaves G (length h) ?h0"
    unfolding terminal_leaves_def
  proof (intro allI impI)
    fix a assume "length h \<le> a \<and> a < length ?h0"
    then have "a = length h" using only by blast
    then show "children (?h0 ! a) = []" using n(2) by simp
  qed
qed

lemma MCTS_Some:
  "MCTS G s N h = Some (Inr (rootNode, h')) \<longleftrightarrow>
     rootNode = length h \<and> MCTS_loop G (length h) 0 N (snd (NewNode s None h)) = Some (Inr h')"
  unfolding MCTS_def NewNode_def
  by (auto split: option.splits sum.splits)

lemma tree_nodes_in_region:
  assumes "tree_shape r h" "a \<in> tree_nodes h r"
  shows "r \<le> a \<and> a < length h"
  using assms(2)
proof (induction rule: tree_nodes.induct)
  case root
  then show ?case using tree_shape_root [OF assms(1)] by simp
next
  case (child a c)
  from tree_shape_child [OF assms(1) _ _ child(2)] child(3) show ?case by simp
qed

section \<open>The example search, evaluated\<close>

lemmas ttt_defs = TicTacToe_def GetPossibleActions_ttt_def successor_ttt_def
  PerformAction_ttt_def IsTerminal_ttt_def GetReward_ttt_def checkWin_def checkDraw_def
  Empty_def mark_X_def mark_O_def word_sle_eq word_sless_alt

lemma example_iteration_1:
  "MCTS_iteration TicTacToe 0 (snd (NewNode example_state None [])) =
     Some (Inr (example_search_1, Fin 0))"
  by (simp add: MCTS_iteration_def example_search_1_def example_state_def Select.simps
      IsLeaf_def Expand_def NewNode_def UCTValue_def Backpropagate.simps ttt_defs upt_rec
      Let_def)

lemma example_iteration_2:
  "MCTS_iteration TicTacToe 0 example_search_1 = Some (Inr (example_search_2, Fin (- 1)))"
  by (simp add: MCTS_iteration_def example_search_1_def example_search_2_def
      example_state_def Select.simps IsLeaf_def Expand_def NewNode_def UCTValue_def
      Backpropagate.simps ttt_defs upt_rec Let_def float64_of_int_def)

lemma example_iteration_3:
  "MCTS_iteration TicTacToe 0 example_search_2 = Some (Inr (example_search_3, Fin 0))"
  by (simp add: MCTS_iteration_def example_search_2_def example_search_3_def
      example_state_def Select.simps IsLeaf_def Expand_def NewNode_def UCTValue_def
      Backpropagate.simps ttt_defs upt_rec Let_def float64_of_int_def)

lemma example_loop:
  "MCTS_loop TicTacToe 0 0 3 (snd (NewNode example_state None [])) =
     Some (Inr example_search_3)"
proof -
  have "MCTS_loop TicTacToe 0 0 3 (snd (NewNode example_state None [])) =
      MCTS_loop TicTacToe 0 (0 + 1) 3 example_search_1"
    by (rule MCTS_loop_step [OF _ example_iteration_1]) simp
  also have "\<dots> = MCTS_loop TicTacToe 0 (0 + 1 + 1) 3 example_search_2"
    by (rule MCTS_loop_step [OF _ example_iteration_2]) simp
  also have "\<dots> = MCTS_loop TicTacToe 0 (0 + 1 + 1 + 1) 3 example_search_3"
    by (rule MCTS_loop_step [OF _ example_iteration_3]) simp
  also have "\<dots> = Some (Inr example_search_3)"
    by (rule MCTS_loop_done) simp
  finally show ?thesis .
qed


lemma example_search:
  "MCTS TicTacToe example_state 3 [] = Some (Inr (0, example_search_3))"
  unfolding MCTS_Some using example_loop by simp


section \<open>The statistics of the root\<close>





section \<open>Terminal nodes\<close>

text \<open>
  Claim C6. After any number \<open>k\<close> of iterations, that is, in the heap that \<open>MCTS(s, k)\<close>
  returns, every node of the tree (every node reachable from the root through
  children; they are the nodes allocated from the root on) whose state is terminal has
  an empty children list.
\<close>

theorem MCTS_terminal_leaves:
  assumes "MCTS G s k h = Some (Inr (rootNode, h'))"
  shows "\<forall>a. (a \<in> tree_nodes h' rootNode \<or> (rootNode \<le> a \<and> a < length h')) \<longrightarrow>
           IsTerminal G (state (h' ! a)) \<longrightarrow> children (h' ! a) = []"
proof (intro allI impI)
  fix a
  assume a: "a \<in> tree_nodes h' rootNode \<or> (rootNode \<le> a \<and> a < length h')"
    and t: "IsTerminal G (state (h' ! a))"
  let ?h0 = "snd (NewNode s None h)"
  from assms have r: "rootNode = length h"
    and loop: "MCTS_loop G (length h) 0 k ?h0 = Some (Inr h')"
    unfolding MCTS_Some by simp_all
  note init = NewNode_tree(1) [where h = h and s = s]
    NewNode_tree(2) [where h = h and s = s] NewNode_tree(3) [where h = h and s = s and G = G]
  have inv: "tree_shape rootNode h' \<and> terminal_leaves G rootNode h'"
  proof (cases "0 \<le> k")
    case True
    from MCTS_loop_partial [OF init(1) loop True refl] init(3) show ?thesis
      unfolding r by blast
  next
    case False
    then have "h' = ?h0" using loop by (simp add: MCTS_loop_done)
    then show ?thesis using init(1,3) unfolding r by simp
  qed
  have "rootNode \<le> a \<and> a < length h'"
    using a tree_nodes_in_region inv by blast
  then show "children (h' ! a) = []"
    using inv t unfolding terminal_leaves_def by blast
qed

theorem MCTS_terminal_leaves_witness:
  "MCTS TicTacToe example_state 3 [] = Some (Inr (0, example_search_3)) \<and>
   3 \<in> tree_nodes example_search_3 0 \<and>
   IsTerminal TicTacToe (state (example_search_3 ! 3)) \<and>
   children (example_search_3 ! 3) = []"
proof -
  have "0 \<in> tree_nodes example_search_3 0" by (rule tree_nodes.root)
  then have "2 \<in> tree_nodes example_search_3 0"
    by (rule tree_nodes.child) (simp add: example_search_3_def)
  then have n: "3 \<in> tree_nodes example_search_3 0"
    by (rule tree_nodes.child) (simp add: example_search_3_def)
  have t: "IsTerminal TicTacToe (state (example_search_3 ! 3))"
    by (simp add: example_search_3_def ttt_defs upt_rec)
  from MCTS_terminal_leaves [OF example_search] n t
  have "children (example_search_3 ! 3) = []" by blast
  then show ?thesis using example_search n t by simp
qed

section \<open>The search does not depend on the addresses\<close>

lemma relocate_node_fields:
  "state (relocate_node k nd) = state nd" "visits (relocate_node k nd) = visits nd"
  "totalReward (relocate_node k nd) = totalReward nd"
  "parent (relocate_node k nd) = map_option (\<lambda>p. p + k) (parent nd)"
  "children (relocate_node k nd) = map (\<lambda>c. c + k) (children nd)"
  by (simp_all add: relocate_node_def)

lemma relocated_nth:
  "a < length t \<Longrightarrow> (h @ relocate (length h) t) ! (a + length h) = relocate_node (length h) (t ! a)"
  by (simp add: relocate_def nth_append)

lemma relocated_length: "length (h @ relocate (length h) t) = length h + length t"
  by (simp add: relocate_def)

lemma relocated_update:
  "a < length t \<Longrightarrow>
     (h @ relocate (length h) t)[a + length h := relocate_node (length h) nd] =
     h @ relocate (length h) (t[a := nd])"
  by (simp add: relocate_def list_update_append map_update)

lemma UCTValue_relocate:
  assumes "c < length t" "\<And>p. parent (t ! c) = Some p \<Longrightarrow> p < length t"
  shows "UCTValue (h @ relocate (length h) t) (c + length h) = UCTValue t c"
proof (cases "parent (t ! c)")
  case None
  then show ?thesis using assms(1)
    by (simp add: UCTValue_def relocated_nth relocate_node_fields)
next
  case (Some p)
  then have "p < length t" by (rule assms(2))
  then show ?thesis using assms(1) Some
    by (simp add: UCTValue_def relocated_nth relocate_node_fields)
qed

lemma select_loop_relocate:
  assumes "\<forall>c \<in> set cs. c < length t \<and> (\<forall>p. parent (t ! c) = Some p \<longrightarrow> p < length t)"
  shows "select_loop (h @ relocate (length h) t) (map (\<lambda>c. c + length h) cs) bv
           (map_option (\<lambda>c. c + length h) bc) =
         (case select_loop t cs bv bc of
            Inl e \<Rightarrow> Inl e
          | Inr (v, b) \<Rightarrow> Inr (v, map_option (\<lambda>c. c + length h) b))"
  using assms
proof (induction cs arbitrary: bv bc)
  case Nil
  then show ?case by simp
next
  case (Cons c cs)
  have u: "UCTValue (h @ relocate (length h) t) (c + length h) = UCTValue t c"
    by (rule UCTValue_relocate) (use Cons.prems in auto)
  have ih: "select_loop (h @ relocate (length h) t) (map (\<lambda>c. c + length h) cs) bv'
           (map_option (\<lambda>c. c + length h) bc') =
         (case select_loop t cs bv' bc' of
            Inl e \<Rightarrow> Inl e
          | Inr (v, b) \<Rightarrow> Inr (v, map_option (\<lambda>c. c + length h) b))"
    for bv' bc'
    by (rule Cons.IH) (use Cons.prems in auto)
  show ?case
  proof (cases "UCTValue t c")
    case (Inl e)
    then show ?thesis using u by simp
  next
    case (Inr v)
    then show ?thesis using u ih [of v "Some c"] ih [of bv bc] by simp
  qed
qed

lemma length_relocate: "length (relocate k t) = length t"
  by (simp add: relocate_def)

lemma map_add_interval: "map (\<lambda>c. c + k) [a ..< a + m] = [a + k ..< a + k + m]"
  by (induction m) (simp_all add: add.assoc)

lemma Backpropagate_unfold:
  assumes "n < length h"
  shows "Backpropagate h n rw =
     (case parent (h ! n) of
        None \<Rightarrow> Some (h[n := bump rw (h ! n)])
      | Some p \<Rightarrow> Backpropagate (h[n := bump rw (h ! n)]) p rw)"
  using assms
  by (subst Backpropagate.simps) (simp add: bump_def Let_def split: option.split)

lemma bump_relocate_node:
  "bump rw (relocate_node k nd) = relocate_node k (bump rw nd)"
  by (simp add: bump_def relocate_node_def)

lemma Select_relocate:
  assumes ts: "tree_shape r t"
  shows "r \<le> a \<Longrightarrow> a < length t \<Longrightarrow>
     Select (h @ relocate (length h) t) (a + length h) =
       (case Select t a of
          None \<Rightarrow> None
        | Some (Inl e) \<Rightarrow> Some (Inl e)
        | Some (Inr l) \<Rightarrow> Some (Inr (l + length h)))"
proof (induction "length t - a" arbitrary: a rule: less_induct)
  case less
  let ?t' = "h @ relocate (length h) t"
  have kids: "children (?t' ! (a + length h)) = map (\<lambda>c. c + length h) (children (t ! a))"
    using less.prems(2) by (simp add: relocated_nth relocate_node_fields)
  show ?case
  proof (cases "children (t ! a) = []")
    case True
    then show ?thesis using kids by (simp add: Select_leaf)
  next
    case False
    then have ne': "children (?t' ! (a + length h)) \<noteq> []" using kids by simp
    have closed: "\<forall>c \<in> set (children (t ! a)).
        c < length t \<and> (\<forall>p. parent (t ! c) = Some p \<longrightarrow> p < length t)"
    proof
      fix c assume "c \<in> set (children (t ! a))"
      from tree_shape_child [OF ts less.prems this] show
        "c < length t \<and> (\<forall>p. parent (t ! c) = Some p \<longrightarrow> p < length t)"
        using less.prems(2) by simp
    qed
    have loop: "select_loop ?t' (children (?t' ! (a + length h))) NInf None =
        (case select_loop t (children (t ! a)) NInf None of
            Inl e \<Rightarrow> Inl e
          | Inr (v, b) \<Rightarrow> Inr (v, map_option (\<lambda>c. c + length h) b))"
      unfolding kids using select_loop_relocate [OF closed, of h NInf None] by simp
    show ?thesis
    proof (cases "select_loop t (children (t ! a)) NInf None")
      case (Inl e)
      then show ?thesis
        using loop Select_unfold_inner [OF False] Select_unfold_inner [OF ne'] by simp
    next
      case (Inr res)
      obtain v bc where res: "res = (v, bc)" by (cases res)
      show ?thesis
      proof (cases bc)
        case None
        then show ?thesis
          using loop Inr res Select_unfold_inner [OF False] Select_unfold_inner [OF ne']
          by simp
      next
        case (Some c)
        then have "c \<in> set (children (t ! a))"
          using select_loop_result [of t _ NInf None v c] Inr res by auto
        from tree_shape_child [OF ts less.prems this] have c: "a < c" "c < length t"
          by simp_all
        then have "length t - c < length t - a" "r \<le> c" using less.prems by linarith+
        note ih = less.hyps [OF this(1) this(2) c(2)]
        have "Select t a = Select t c"
          using Select_unfold_inner [OF False] Inr res Some by simp
        moreover have "Select ?t' (a + length h) = Select ?t' (c + length h)"
          using Select_unfold_inner [OF ne'] loop Inr res Some by simp
        ultimately show ?thesis using ih by simp
      qed
    qed
  qed
qed

lemma Expand_relocate:
  assumes "n < length t"
  shows "Expand G (n + length h) (h @ relocate (length h) t) =
     h @ relocate (length h) (Expand G n t)"
proof -
  let ?k = "length h"
  let ?t' = "h @ relocate ?k t"
  let ?acts = "GetPossibleActions G (state (t ! n))"
  have n': "n + ?k < length ?t'" using assms by (simp add: length_relocate)
  have st: "state (?t' ! (n + ?k)) = state (t ! n)"
    and ch: "children (?t' ! (n + ?k)) = map (\<lambda>c. c + ?k) (children (t ! n))"
    using assms by (simp_all add: relocated_nth relocate_node_fields)
  have iv: "[length ?t' ..< length ?t' + length ?acts] =
      map (\<lambda>c. c + ?k) [length t ..< length t + length ?acts]"
    unfolding map_add_interval by (simp add: length_relocate add.commute)
  have upd: "(?t' ! (n + ?k))\<lparr>children := children (?t' ! (n + ?k)) @
        [length ?t' ..< length ?t' + length ?acts]\<rparr> =
      relocate_node ?k ((t ! n)\<lparr>children := children (t ! n) @
        [length t ..< length t + length ?acts]\<rparr>)"
    unfolding iv using assms by (simp add: relocated_nth relocate_node_def length_relocate)
  have fresh: "map (\<lambda>a. fresh_node (PerformAction G (state (t ! n)) a) (n + ?k)) ?acts =
      relocate ?k (map (\<lambda>a. fresh_node (PerformAction G (state (t ! n)) a) n) ?acts)"
    by (simp add: relocate_def relocate_node_def fresh_node_def)
  show ?thesis
    unfolding Expand_eq [OF n'] Expand_eq [OF assms] st upd fresh
    using assms by (simp add: relocated_update) (simp add: relocate_def)
qed

lemma Backpropagate_relocate:
  assumes "parent_chain t (n # as)"
  shows "Backpropagate (h @ relocate (length h) t) (n + length h) rw =
     (case Backpropagate t n rw of
        None \<Rightarrow> None
      | Some t' \<Rightarrow> Some (h @ relocate (length h) t'))"
  using assms
proof (induction as arbitrary: n t)
  case Nil
  then have n: "n < length t" "parent (t ! n) = None" by simp_all
  have n': "n + length h < length (h @ relocate (length h) t)"
    using n(1) by (simp add: length_relocate)
  show ?case
    unfolding Backpropagate_unfold [OF n'] Backpropagate_unfold [OF n(1)]
    using n by (simp add: relocated_nth relocate_node_fields bump_relocate_node relocated_update)
next
  case (Cons p as)
  then have n: "n < length t" "parent (t ! n) = Some p" and ch: "parent_chain t (p # as)"
    by simp_all
  let ?t2 = "t[n := bump rw (t ! n)]"
  have ch2: "parent_chain ?t2 (p # as)"
    using ch by (rule parent_chain_update) (simp add: bump_def)
  have n': "n + length h < length (h @ relocate (length h) t)"
    using n(1) by (simp add: length_relocate)
  show ?case
    unfolding Backpropagate_unfold [OF n'] Backpropagate_unfold [OF n(1)]
    using n Cons.IH [OF ch2]
    by (simp add: relocated_nth relocate_node_fields bump_relocate_node relocated_update)
qed

lemma expanded_relocate:
  assumes "n < length t"
  shows "expanded G (n + length h) (h @ relocate (length h) t) =
     h @ relocate (length h) (expanded G n t)"
  using assms
  by (simp add: expanded_def relocated_nth relocate_node_fields Expand_relocate)

lemma MCTS_iteration_unfold:
  assumes "Select h r = Some (Inr node)"
  shows "MCTS_iteration G r h =
     (case Select (expanded G node h) node of
        None \<Rightarrow> None
      | Some (Inl e) \<Rightarrow> Some (Inl e)
      | Some (Inr child) \<Rightarrow>
          (case Backpropagate (expanded G node h) child
                  (GetReward G (state (expanded G node h ! child))) of
             None \<Rightarrow> None
           | Some h2 \<Rightarrow> Some (Inr (h2, GetReward G (state (expanded G node h ! child))))))"
  unfolding MCTS_iteration_def Let_def expanded_def using assms by simp

lemma MCTS_iteration_relocate:
  assumes ts: "tree_shape r t"
  shows "MCTS_iteration G (r + length h) (h @ relocate (length h) t) =
     (case MCTS_iteration G r t of
        None \<Rightarrow> None
      | Some (Inl e) \<Rightarrow> Some (Inl e)
      | Some (Inr (t', rw)) \<Rightarrow> Some (Inr (h @ relocate (length h) t', rw)))"
proof -
  let ?k = "length h"
  let ?t' = "h @ relocate ?k t"
  note rt = tree_shape_root [OF ts]
  have sel: "Select ?t' (r + ?k) =
       (case Select t r of
          None \<Rightarrow> None
        | Some (Inl e) \<Rightarrow> Some (Inl e)
        | Some (Inr l) \<Rightarrow> Some (Inr (l + ?k)))"
    using Select_relocate [OF ts, of r h] rt by simp
  from Select_in_tree [OF ts, of r] rt consider e where "Select t r = Some (Inl e)"
    | node where "Select t r = Some (Inr node)" "r \<le> node" "node < length t"
    by auto
  then show ?thesis
  proof cases
    case 1
    then show ?thesis using sel by (simp add: MCTS_iteration_def)
  next
    case 2
    let ?t1 = "expanded G node t"
    note ef = expanded_facts [OF ts 2(2,3), where G = G]
    have n1: "node < length ?t1" using 2(3) ef(2) by simp
    have ex: "expanded G (node + ?k) ?t' = h @ relocate ?k ?t1"
      using 2(3) by (rule expanded_relocate)
    have sel1: "Select (h @ relocate ?k ?t1) (node + ?k) =
       (case Select ?t1 node of
          None \<Rightarrow> None
        | Some (Inl e) \<Rightarrow> Some (Inl e)
        | Some (Inr l) \<Rightarrow> Some (Inr (l + ?k)))"
      using Select_relocate [OF ef(1) 2(2) n1] by simp
    have sel': "Select ?t' (r + ?k) = Some (Inr (node + ?k))" using sel 2(1) by simp
    note left = MCTS_iteration_unfold [OF sel', where G = G, unfolded ex]
    note right = MCTS_iteration_unfold [OF 2(1), where G = G]
    from Select_in_tree [OF ef(1) 2(2) n1] consider e where "Select ?t1 node = Some (Inl e)"
      | child where "Select ?t1 node = Some (Inr child)" "node \<le> child" "child < length ?t1"
      by auto
    then show ?thesis
    proof cases
      case 1
      then show ?thesis unfolding left right using sel1 by simp
    next
      case c: 2
      have rc: "r \<le> child" using 2(2) c(2) by simp
      from chain_to_root [OF ef(1) rc c(3)] obtain as where
        as: "parent_chain ?t1 (child # as)" by blast
      have st: "state ((h @ relocate ?k ?t1) ! (child + ?k)) = state (?t1 ! child)"
        using c(3) by (simp add: relocated_nth relocate_node_fields)
      show ?thesis
        unfolding left right
        using sel1 c(1) st Backpropagate_relocate [OF as, of h]
        by (simp split: option.split)
    qed
  qed
qed

lemma MCTS_loop_relocate:
  assumes "tree_shape r t" "n = nat (N - i)"
  shows "MCTS_loop G (r + length h) i N (h @ relocate (length h) t) =
     (case MCTS_loop G r i N t of
        None \<Rightarrow> None
      | Some (Inl e) \<Rightarrow> Some (Inl e)
      | Some (Inr t') \<Rightarrow> Some (Inr (h @ relocate (length h) t')))"
  using assms
proof (induction n arbitrary: i t)
  case 0
  then have "\<not> i < N" by simp
  then show ?case by (simp add: MCTS_loop_done)
next
  case (Suc n)
  then have lt: "i < N" by simp
  note rel = MCTS_iteration_relocate [OF Suc.prems(1), of G h]
  have unf: "MCTS_loop G q i N u =
      (case MCTS_iteration G q u of
           None \<Rightarrow> None
         | Some (Inl e) \<Rightarrow> Some (Inl e)
         | Some (Inr (h1, reward)) \<Rightarrow> MCTS_loop G q (i + 1) N h1)" for q u
    using lt by (subst MCTS_loop.simps) simp
  show ?case
  proof (cases "MCTS_iteration G r t")
    case None
    then show ?thesis using rel unf by simp
  next
    case (Some res)
    show ?thesis
    proof (cases res)
      case (Inl e)
      then show ?thesis using rel unf Some by simp
    next
      case (Inr p)
      obtain t1 rw where p: "p = (t1, rw)" by (cases p)
      have it: "MCTS_iteration G r t = Some (Inr (t1, rw))" using Some Inr p by simp
      have ts1: "tree_shape r t1" using Suc.prems(1) it by (rule MCTS_iteration_preserves(1))
      have n: "n = nat (N - (i + 1))" using Suc.prems(2) by simp
      show ?thesis
        using rel unf [of r t] unf [of "r + length h" "h @ relocate (length h) t"] it
          Suc.IH [OF ts1 n]
        by simp
    qed
  qed
qed

lemma MCTS_relocate:
  "MCTS G s N h =
     (case MCTS G s N [] of
        None \<Rightarrow> None
      | Some (Inl e) \<Rightarrow> Some (Inl e)
      | Some (Inr (rootNode, t)) \<Rightarrow> Some (Inr (rootNode + length h, h @ relocate (length h) t)))"
proof -
  let ?t0 = "snd (NewNode s None [])"
  have ts: "tree_shape 0 ?t0" using NewNode_tree(1) [of "[]" s] by simp
  have h0: "snd (NewNode s None h) = h @ relocate (length h) ?t0"
    by (simp add: NewNode_def relocate_def relocate_node_def)
  have "MCTS_loop G (length h) 0 N (snd (NewNode s None h)) =
     (case MCTS_loop G 0 0 N ?t0 of
        None \<Rightarrow> None
      | Some (Inl e) \<Rightarrow> Some (Inl e)
      | Some (Inr t') \<Rightarrow> Some (Inr (h @ relocate (length h) t')))"
    unfolding h0 using MCTS_loop_relocate [OF ts refl, of G h 0 N] by simp
  then show ?thesis
    by (simp add: MCTS_def NewNode_def split: option.split sum.split)
qed

text \<open>
  Claim C10. No function of the search takes a random input: \<open>Select\<close>, \<open>Expand\<close>,
  the evaluation and \<open>Backpropagate\<close> are functions of the heap, the game and their
  arguments, and the generator that \<open>main\<close> seeds is not among them. What differs
  between two runs of \<open>MCTS\<close> on the same game, root state and iteration count is the
  heap they start in, and with it the addresses of the nodes. The outcome does not
  depend on that: the run in a heap \<open>h\<close> ends as the run in the empty heap does
  (it returns, panics or does not return alike), and the tree it returns is the same
  tree, placed behind \<open>h\<close>. So the trees of two runs agree node by node in state,
  visit count and accumulated reward, with parents and children at the same offsets
  from the root.
\<close>

theorem MCTS_deterministic:
  "MCTS G s N h =
     (case MCTS G s N [] of
        None \<Rightarrow> None
      | Some (Inl e) \<Rightarrow> Some (Inl e)
      | Some (Inr (rootNode, t)) \<Rightarrow>
          Some (Inr (rootNode + length h, h @ relocate (length h) t))) \<and>
   (MCTS G s N h1 = Some (Inr (r1, t1)) \<longrightarrow>
      (\<exists>r2 t2. MCTS G s N h2 = Some (Inr (r2, t2)) \<and>
         r1 = length h1 \<and> r2 = length h2 \<and>
         length t1 - length h1 = length t2 - length h2 \<and>
         (\<forall>i < length t1 - length h1.
            state (t1 ! (r1 + i)) = state (t2 ! (r2 + i)) \<and>
            visits (t1 ! (r1 + i)) = visits (t2 ! (r2 + i)) \<and>
            totalReward (t1 ! (r1 + i)) = totalReward (t2 ! (r2 + i)) \<and>
            map_option (\<lambda>p. p - r1) (parent (t1 ! (r1 + i))) =
              map_option (\<lambda>p. p - r2) (parent (t2 ! (r2 + i))) \<and>
            map (\<lambda>c. c - r1) (children (t1 ! (r1 + i))) =
              map (\<lambda>c. c - r2) (children (t2 ! (r2 + i))))))"
proof (intro conjI impI)
  show "MCTS G s N h =
     (case MCTS G s N [] of
        None \<Rightarrow> None
      | Some (Inl e) \<Rightarrow> Some (Inl e)
      | Some (Inr (rootNode, t)) \<Rightarrow>
          Some (Inr (rootNode + length h, h @ relocate (length h) t)))"
    by (rule MCTS_relocate)
next
  assume run1: "MCTS G s N h1 = Some (Inr (r1, t1))"
  then obtain r t where base: "MCTS G s N [] = Some (Inr (r, t))"
    and 1: "r1 = r + length h1" "t1 = h1 @ relocate (length h1) t"
    using MCTS_relocate [of G s N h1]
    by (auto split: option.splits sum.splits)
  have r: "r = 0" using base unfolding MCTS_Some by simp
  let ?t2 = "h2 @ relocate (length h2) t"
  have run2: "MCTS G s N h2 = Some (Inr (length h2, ?t2))"
    using MCTS_relocate [of G s N h2] base r by simp
  have len: "length t1 - length h1 = length t" "length ?t2 - length h2 = length t"
    using 1(2) by (simp_all add: length_relocate)
  have nodes: "state (t1 ! (r1 + i)) = state (?t2 ! (length h2 + i)) \<and>
      visits (t1 ! (r1 + i)) = visits (?t2 ! (length h2 + i)) \<and>
      totalReward (t1 ! (r1 + i)) = totalReward (?t2 ! (length h2 + i)) \<and>
      map_option (\<lambda>p. p - r1) (parent (t1 ! (r1 + i))) =
        map_option (\<lambda>p. p - length h2) (parent (?t2 ! (length h2 + i))) \<and>
      map (\<lambda>c. c - r1) (children (t1 ! (r1 + i))) =
        map (\<lambda>c. c - length h2) (children (?t2 ! (length h2 + i)))"
    if i: "i < length t" for i
  proof -
    have a: "t1 ! (r1 + i) = relocate_node (length h1) (t ! i)"
      using relocated_nth [OF i, of h1] 1 r by (simp add: add.commute)
    have b: "?t2 ! (length h2 + i) = relocate_node (length h2) (t ! i)"
      using relocated_nth [OF i, of h2] by (simp add: add.commute)
    show ?thesis
      unfolding a b using 1(1) r
      by (simp add: relocate_node_fields option.map_comp comp_def)
  qed
  show "\<exists>r2 t2. MCTS G s N h2 = Some (Inr (r2, t2)) \<and>
         r1 = length h1 \<and> r2 = length h2 \<and>
         length t1 - length h1 = length t2 - length h2 \<and>
         (\<forall>i < length t1 - length h1.
            state (t1 ! (r1 + i)) = state (t2 ! (r2 + i)) \<and>
            visits (t1 ! (r1 + i)) = visits (t2 ! (r2 + i)) \<and>
            totalReward (t1 ! (r1 + i)) = totalReward (t2 ! (r2 + i)) \<and>
            map_option (\<lambda>p. p - r1) (parent (t1 ! (r1 + i))) =
              map_option (\<lambda>p. p - r2) (parent (t2 ! (r2 + i))) \<and>
            map (\<lambda>c. c - r1) (children (t1 ! (r1 + i))) =
              map (\<lambda>c. c - r2) (children (t2 ! (r2 + i))))"
    using run2 1(1) r len nodes
    by (intro exI [of _ "length h2"] exI [of _ ?t2]) simp
qed

theorem MCTS_deterministic_witness:
  "MCTS TicTacToe example_state 3 [] = Some (Inr (0, example_search_3)) \<and>
   MCTS TicTacToe example_state 3 example_search_1 =
     Some (Inr (3, example_search_1 @ relocate 3 example_search_3)) \<and>
   (\<exists>t2. MCTS TicTacToe example_state 3 example_search_1 = Some (Inr (3, t2)) \<and>
      visits (t2 ! 3) = 3 \<and> totalReward (t2 ! 3) = Fin (- 1) \<and>
      children (t2 ! 3) = [4, 5])"
proof -
  have len: "length example_search_1 = 3" by (simp add: example_search_1_def)
  from MCTS_deterministic [of TicTacToe example_state 3 example_search_1 "[]" 0
      example_search_3 example_search_1]
  have run: "MCTS TicTacToe example_state 3 example_search_1 =
      Some (Inr (3, example_search_1 @ relocate 3 example_search_3))"
    using example_search len by simp
  have "(example_search_1 @ relocate 3 example_search_3) ! 3 =
      relocate_node 3 (example_search_3 ! 0)"
    using relocated_nth [of 0 example_search_3 example_search_1] len
    by (simp add: example_search_3_def)
  then have "visits ((example_search_1 @ relocate 3 example_search_3) ! 3) = 3 \<and>
      totalReward ((example_search_1 @ relocate 3 example_search_3) ! 3) = Fin (- 1) \<and>
      children ((example_search_1 @ relocate 3 example_search_3) ! 3) = [4, 5]"
    by (simp add: relocate_node_fields example_search_3_def)
  then show ?thesis using example_search run by simp
qed

end
